theory Spec2Isabelle
  imports Main
begin

section \<open>Python strings\<close>

text \<open>
  A Python \<^verbatim>\<open>str\<close> is a sequence of Unicode code points; a code point is modelled as a
  natural number and a string as a list of them, so \<open>length\<close> is Python's \<^verbatim>\<open>len\<close>.
  \<open>str\<close> reads a literal of the source (ASCII) as such a string.
\<close>

type_synonym pystr = "nat list"

abbreviation cp :: "char \<Rightarrow> nat" where
  "cp c \<equiv> of_char c"

definition str :: "string \<Rightarrow> pystr" where
  "str s = map cp s"

text \<open>
  The characters \<^verbatim>\<open>str.strip()\<close> removes when called without argument: the code points
  Python classifies as whitespace (U+0009..U+000D, U+001C..U+0020, U+0085, U+00A0, U+1680,
  U+2000..U+200A, U+2028, U+2029, U+202F, U+205F, U+3000).
\<close>

definition is_space :: "nat \<Rightarrow> bool" where
  "is_space c \<longleftrightarrow>
     (9 \<le> c \<and> c \<le> 13) \<or> (28 \<le> c \<and> c \<le> 32) \<or> c = 133 \<or> c = 160 \<or> c = 5760 \<or>
     (8192 \<le> c \<and> c \<le> 8202) \<or> c = 8232 \<or> c = 8233 \<or> c = 8239 \<or> c = 8287 \<or> c = 12288"

text \<open>\<^verbatim>\<open>s.strip()\<close>\<close>

definition strip :: "pystr \<Rightarrow> pystr" where
  "strip s = rev (dropWhile is_space (rev (dropWhile is_space s)))"

text \<open>\<^verbatim>\<open>s.startswith(p)\<close> and \<^verbatim>\<open>s.endswith(p)\<close>\<close>

definition startswith :: "pystr \<Rightarrow> pystr \<Rightarrow> bool" where
  "startswith s p \<longleftrightarrow> take (length p) s = p"

definition endswith :: "pystr \<Rightarrow> pystr \<Rightarrow> bool" where
  "endswith s p \<longleftrightarrow> length p \<le> length s \<and> drop (length s - length p) s = p"

text \<open>
  \<^verbatim>\<open>s.split(sep)\<close> for a separator of one character, the only use the source makes of it
  (\<^verbatim>\<open>"|"\<close> and \<^verbatim>\<open>"\n"\<close>): the result is never empty, \<^verbatim>\<open>"".split("|") == [""]\<close>,
  so the first branch of the \<open>case\<close> is never taken.
\<close>

fun split :: "pystr \<Rightarrow> nat \<Rightarrow> pystr list" where
  "split [] sep = [[]]"
| "split (c # cs) sep =
     (if c = sep then [] # split cs sep
      else (case split cs sep of
              [] \<Rightarrow> [[c]]
            | x # xs \<Rightarrow> (c # x) # xs))"

text \<open>\<^verbatim>\<open>sep.join(xs)\<close>\<close>

fun join :: "pystr \<Rightarrow> pystr list \<Rightarrow> pystr" where
  "join sep [] = []"
| "join sep [x] = x"
| "join sep (x # y # ys) = x @ sep @ join sep (y # ys)"

text \<open>\<^verbatim>\<open>xs[1:-1]\<close>: a slice never raises; on fewer than three elements it is empty.\<close>

definition slice_1_m1 :: "'a list \<Rightarrow> 'a list" where
  "slice_1_m1 xs = butlast (tl xs)"

text \<open>\<^verbatim>\<open>s * n\<close> for an integer \<open>n\<close>: the empty string when \<open>n\<close> is negative.\<close>

definition str_mul :: "pystr \<Rightarrow> int \<Rightarrow> pystr" where
  "str_mul s n = concat (replicate (nat n) s)"

text \<open>\<^verbatim>\<open>s.ljust(width)\<close>: pads with spaces on the right, \<open>s\<close> itself when it is long enough.\<close>

definition ljust :: "pystr \<Rightarrow> int \<Rightarrow> pystr" where
  "ljust s width = s @ replicate (nat (width - int (length s))) (cp CHR '' '')"

text \<open>The exceptions the table code could raise: \<^verbatim>\<open>max\<close> of nothing, an index out of range.\<close>

datatype error = ValueError | IndexError

text \<open>\<^verbatim>\<open>max(...)\<close> over a sequence of lengths\<close>

definition py_max :: "nat list \<Rightarrow> error + nat" where
  "py_max xs = (case xs of [] \<Rightarrow> Inl ValueError | x # ys \<Rightarrow> Inr (fold max ys x))"

text \<open>\<^verbatim>\<open>xs[i]\<close> for an index that is not negative\<close>

definition py_index :: "'a list \<Rightarrow> nat \<Rightarrow> error + 'a" where
  "py_index xs i = (if i < length xs then Inr (xs ! i) else Inl IndexError)"

section \<open>fix-md-tables.py\<close>

text \<open>
  The functions \<^verbatim>\<open>fix_tables_in_content\<close> calls: \<^verbatim>\<open>is_table_row\<close> and \<^verbatim>\<open>align_table\<close>.
  (\<^verbatim>\<open>is_separator_row\<close> and \<^verbatim>\<open>normalize_table_row\<close> are called by nothing, and
  \<^verbatim>\<open>main\<close> only reads the file and prints or writes the result.)
\<close>

subsection \<open>is_table_row\<close>

definition is_table_row :: "pystr \<Rightarrow> bool" where
  "is_table_row line =
     (let stripped = strip line
      in startswith stripped (str ''|'') \<and> endswith stripped (str ''|''))"

subsection \<open>align_table\<close>

text \<open>
  The body of the first loop: \<^verbatim>\<open>stripped.split("|")[1:-1]\<close>, each cell stripped.
\<close>

definition parse_row :: "pystr \<Rightarrow> pystr list" where
  "parse_row line =
     (let stripped = strip line;
          cells = slice_1_m1 (split stripped (cp CHR ''|''))
      in map strip cells)"

text \<open>\<^verbatim>\<open>while len(row) < num_cols: row.append("")\<close>; the empty string is \<open>[]\<close>.\<close>

definition pad_row :: "nat \<Rightarrow> pystr list \<Rightarrow> pystr list" where
  "pad_row num_cols row = row @ replicate (num_cols - length row) []"

text \<open>\<^verbatim>\<open>all(c in "-:" for c in cell)\<close>\<close>

definition all_dash_colon :: "pystr \<Rightarrow> bool" where
  "all_dash_colon cell = list_all (\<lambda>c. c \<in> set (str ''-:'')) cell"

text \<open>
  The inner loop of the width computation for one column: \<open>max_width\<close> starts at 0 and
  every row raises it.
\<close>

definition width_step :: "nat \<Rightarrow> pystr list \<Rightarrow> int \<Rightarrow> int" where
  "width_step col row max_width =
     (if col < length row then
        (let cell = row ! col
         in if all_dash_colon cell then max max_width 3
            else max max_width (int (length cell)))
      else max_width)"

definition col_width :: "pystr list list \<Rightarrow> nat \<Rightarrow> int" where
  "col_width rows col = fold (width_step col) rows 0"

definition col_widths_of :: "pystr list list \<Rightarrow> nat \<Rightarrow> int list" where
  "col_widths_of rows num_cols = map (col_width rows) [0..<num_cols]"

text \<open>One cell of the rebuilt table at the width of its column.\<close>

definition render_cell :: "int \<Rightarrow> pystr \<Rightarrow> pystr" where
  "render_cell width cell =
     (if all_dash_colon cell then
        (if startswith cell (str '':'') \<and> endswith cell (str '':'') then
           str '':'' @ str_mul (str ''-'') (width - 2) @ str '':''
         else if startswith cell (str '':'') then
           str '':'' @ str_mul (str ''-'') (width - 1)
         else if endswith cell (str '':'') then
           str_mul (str ''-'') (width - 1) @ str '':''
         else str_mul (str ''-'') width)
      else ljust cell width)"

text \<open>
  \<^verbatim>\<open>for col_idx, cell in enumerate(row)\<close>: the cells of a row from index \<open>col_idx\<close> on;
  \<^verbatim>\<open>col_widths[col_idx]\<close> raises when the index is out of range.
\<close>

fun render_cells :: "int list \<Rightarrow> nat \<Rightarrow> pystr list \<Rightarrow> error + pystr list" where
  "render_cells col_widths col_idx [] = Inr []"
| "render_cells col_widths col_idx (cell # rest) =
     (case py_index col_widths col_idx of
        Inl e \<Rightarrow> Inl e
      | Inr width \<Rightarrow>
          (case render_cells col_widths (Suc col_idx) rest of
             Inl e \<Rightarrow> Inl e
           | Inr cells \<Rightarrow> Inr (render_cell width cell # cells)))"

text \<open>\<^verbatim>\<open>"| " + " | ".join(cells) + " |"\<close>\<close>

definition row_line :: "pystr list \<Rightarrow> pystr" where
  "row_line cells = str ''| '' @ join (str '' | '') cells @ str '' |''"

fun render_rows :: "int list \<Rightarrow> pystr list list \<Rightarrow> error + pystr list" where
  "render_rows col_widths [] = Inr []"
| "render_rows col_widths (row # rows) =
     (case render_cells col_widths 0 row of
        Inl e \<Rightarrow> Inl e
      | Inr cells \<Rightarrow>
          (case render_rows col_widths rows of
             Inl e \<Rightarrow> Inl e
           | Inr aligned_lines \<Rightarrow> Inr (row_line cells # aligned_lines)))"

definition align_table :: "pystr list \<Rightarrow> error + pystr list" where
  "align_table table_lines =
     (if table_lines = [] then Inr table_lines
      else
        (let rows = map parse_row table_lines
         in if rows = [] then Inr table_lines
            else
              (case py_max (map length rows) of
                 Inl e \<Rightarrow> Inl e
               | Inr num_cols \<Rightarrow>
                   (let rows = map (pad_row num_cols) rows;
                        col_widths = col_widths_of rows num_cols
                    in render_rows col_widths rows))))"

subsection \<open>fix_tables_in_content\<close>

text \<open>
  The inner loop \<^verbatim>\<open>while i < len(lines) and is_table_row(lines[i])\<close> on the lines from
  index \<open>i\<close> on: the table lines it collects and the lines that remain.
\<close>

fun collect_table :: "pystr list \<Rightarrow> pystr list \<times> pystr list" where
  "collect_table [] = ([], [])"
| "collect_table (l # ls) =
     (if is_table_row l then
        (let (table_lines, rest) = collect_table ls in (l # table_lines, rest))
      else ([], l # ls))"

text \<open>
  The outer loop on the lines from index \<open>i\<close> on, with the \<open>result\<close> built so far;
  \<^verbatim>\<open>result.append("")\<close> appends the empty string \<open>[]\<close>.
\<close>

function fix_lines :: "pystr list \<Rightarrow> pystr list \<Rightarrow> error + pystr list" where
  "fix_lines [] result = Inr result"
| "fix_lines (line # lines) result =
     (if is_table_row line then
        (let (table_lines, rest) = collect_table (line # lines);
             result = (if result \<noteq> [] \<and> strip (last result) \<noteq> [] then result @ [[]]
                       else result)
         in case align_table table_lines of
              Inl e \<Rightarrow> Inl e
            | Inr aligned \<Rightarrow>
                (let result = result @ aligned;
                     result = (if rest \<noteq> [] \<and> strip (hd rest) \<noteq> [] then result @ [[]]
                               else result)
                 in fix_lines rest result))
      else fix_lines lines (result @ [line]))"
  by pat_completeness auto
termination
proof (relation "measure (\<lambda>(ls, r). length ls)")
  show "wf (measure (\<lambda>(ls, r). length ls))" by simp
next
  fix line :: pystr and lines result xc :: "pystr list"
    and x table_lines rest
  assume "is_table_row line" and x: "x = collect_table (line # lines)"
    and "(table_lines, rest) = x"
  then have rest: "rest = snd (collect_table lines)"
    by (auto split: prod.splits)
  have "length (snd (collect_table ls)) \<le> length ls" for ls
    by (induction ls) (auto split: prod.splits)
  with rest have "length rest \<le> length lines"
    by simp
  then show "((rest, xc), line # lines, result) \<in> measure (\<lambda>(ls, r). length ls)"
    by simp
next
  fix line :: pystr and lines result :: "pystr list"
  show "((lines, result @ [line]), line # lines, result) \<in> measure (\<lambda>(ls, r). length ls)"
    by simp
qed

definition fix_tables_in_content :: "pystr \<Rightarrow> error + pystr" where
  "fix_tables_in_content content =
     (let lines = split content (cp CHR 0x0A)
      in case fix_lines lines [] of
           Inl e \<Rightarrow> Inl e
         | Inr result \<Rightarrow> Inr (join (str [CHR 0x0A]) result))"

subsection \<open>The intermediate values of align_table\<close>

text \<open>
  Names for what \<open>align_table\<close> computes on the way, for a table that is not empty:
  \<open>num_cols\<close>, the padded \<open>rows\<close>, \<open>col_widths\<close>, and the \<open>cells\<close> of every rebuilt row.
\<close>

definition table_num_cols :: "pystr list \<Rightarrow> nat" where
  "table_num_cols table_lines = fold max (map length (map parse_row table_lines)) 0"

definition table_rows :: "pystr list \<Rightarrow> pystr list list" where
  "table_rows table_lines =
     map (pad_row (table_num_cols table_lines)) (map parse_row table_lines)"

definition table_col_widths :: "pystr list \<Rightarrow> int list" where
  "table_col_widths table_lines =
     col_widths_of (table_rows table_lines) (table_num_cols table_lines)"

definition table_cells :: "pystr list \<Rightarrow> pystr list list" where
  "table_cells table_lines =
     map (\<lambda>row. map2 render_cell (table_col_widths table_lines) row) (table_rows table_lines)"

subsection \<open>Documents and what the transform may change\<close>

text \<open>The text of a document given by its lines: the lines joined by newlines.\<close>

definition doc :: "string list \<Rightarrow> pystr" where
  "doc ls = join (str [CHR 0x0A]) (map str ls)"

text \<open>
  \<open>reflowed ls out\<close>: the lines \<open>out\<close> are the lines \<open>ls\<close> where every line that is no table
  row stays as it is and where it is, and every maximal run of table rows is replaced by
  its aligned rows, with at most one empty line put directly before and directly after it.
\<close>

inductive reflowed :: "pystr list \<Rightarrow> pystr list \<Rightarrow> bool" where
  Nil: "reflowed [] []"
| Line: "\<not> is_table_row l \<Longrightarrow> reflowed ls out \<Longrightarrow> reflowed (l # ls) (l # out)"
| Block: "block \<noteq> [] \<Longrightarrow> \<forall>l\<in>set block. is_table_row l \<Longrightarrow>
     ls = [] \<or> \<not> is_table_row (hd ls) \<Longrightarrow>
     align_table block = Inr aligned \<Longrightarrow>
     before = [] \<or> before = [str ''''] \<Longrightarrow> after = [] \<or> after = [str ''''] \<Longrightarrow>
     reflowed ls out \<Longrightarrow> reflowed (block @ ls) (before @ aligned @ after @ out)"

text \<open>
  The table blocks of a document: the maximal runs of table rows, as the loop of
  \<open>fix_tables_in_content\<close> collects them.
\<close>

function table_blocks :: "pystr list \<Rightarrow> pystr list list" where
  "table_blocks [] = []"
| "table_blocks (line # lines) =
     (if is_table_row line then
        (let (table_lines, rest) = collect_table (line # lines)
         in table_lines # table_blocks rest)
      else table_blocks lines)"
  by pat_completeness auto
termination
proof (relation "measure length")
  show "wf (measure length)" by simp
next
  fix line :: pystr and lines :: "pystr list" and x table_lines rest
  assume "is_table_row line" and x: "x = collect_table (line # lines)"
    and "(table_lines, rest) = x"
  then have rest: "rest = snd (collect_table lines)"
    by (auto split: prod.splits)
  have "length (snd (collect_table ls)) \<le> length ls" for ls
    by (induction ls) (auto split: prod.splits)
  with rest have "length rest \<le> length lines"
    by simp
  then show "(rest, line # lines) \<in> measure length"
    by simp
next
  fix line :: pystr and lines :: "pystr list"
  show "(lines, line # lines) \<in> measure length"
    by simp
qed

section \<open>Strings and lists\<close>

lemma str_lits:
  "str ''|'' = [124]" "str '':'' = [58]" "str ''-'' = [45]" "str ''-:'' = [45, 58]"
  "str ''| '' = [124, 32]" "str '' | '' = [32, 124, 32]" "str '' |'' = [32, 124]"
  "str [CHR 0x0A] = [10]" "str [] = []"
  by (simp_all add: str_def)

lemma is_space_lits:
  "is_space 32" "\<not> is_space 124" "\<not> is_space 45" "\<not> is_space 58"
  by (simp_all add: is_space_def)

lemma startswith_single: "startswith s [c] \<longleftrightarrow> s \<noteq> [] \<and> hd s = c"
  by (cases s) (simp_all add: startswith_def)

lemma endswith_single: "endswith s [c] \<longleftrightarrow> s \<noteq> [] \<and> last s = c"
proof (cases s rule: rev_cases)
  case Nil
  then show ?thesis by (simp add: endswith_def)
next
  case (snoc ys y)
  then show ?thesis by (simp add: endswith_def)
qed

lemma is_table_row_hd_last:
  "is_table_row line \<longleftrightarrow>
     strip line \<noteq> [] \<and> hd (strip line) = cp CHR ''|'' \<and> last (strip line) = cp CHR ''|''"
  by (auto simp: is_table_row_def Let_def str_lits startswith_single endswith_single)

lemma fold_max_ge: "(a::nat) \<le> fold max xs a"
proof (induction xs arbitrary: a)
  case Nil
  then show ?case by simp
next
  case (Cons x xs)
  have "a \<le> max x a" by simp
  also have "\<dots> \<le> fold max xs (max x a)" by (rule Cons.IH)
  finally show ?case by simp
qed

lemma fold_max_mem: "x \<in> set xs \<Longrightarrow> (x::nat) \<le> fold max xs a"
proof (induction xs arbitrary: a)
  case Nil
  then show ?case by simp
next
  case (Cons y ys)
  show ?case
  proof (cases "x = y")
    case True
    have "max y a \<le> fold max ys (max y a)" by (rule fold_max_ge)
    with True show ?thesis by simp
  next
    case False
    with Cons show ?thesis by simp
  qed
qed

lemma fold_max_Max: "xs \<noteq> [] \<Longrightarrow> fold max xs (0::nat) = Max (set xs)"
proof -
  assume "xs \<noteq> []"
  then obtain y ys where xs: "xs = y # ys" by (cases xs) auto
  have "fold max xs 0 = fold max ys y" by (simp add: xs)
  also have "\<dots> = Max (set (y # ys))" by (simp only: Max.set_eq_fold)
  finally show ?thesis by (simp add: xs)
qed

lemma py_max_Inr: "xs \<noteq> [] \<Longrightarrow> py_max xs = Inr (fold max xs 0)"
  by (cases xs) (simp_all add: py_max_def)

lemma render_cells_Inr:
  "col_idx + length row \<le> length cw \<Longrightarrow>
   render_cells cw col_idx row = Inr (map2 render_cell (drop col_idx cw) row)"
proof (induction row arbitrary: col_idx)
  case Nil
  then show ?case by simp
next
  case (Cons cell rest)
  then have lt: "col_idx < length cw" by simp
  from Cons.prems have "Suc col_idx + length rest \<le> length cw" by simp
  then have IH: "render_cells cw (Suc col_idx) rest = Inr (map2 render_cell (drop (Suc col_idx) cw) rest)"
    by (rule Cons.IH)
  have "drop col_idx cw = cw ! col_idx # drop (Suc col_idx) cw"
    using lt by (simp add: Cons_nth_drop_Suc)
  then show ?case using lt IH by (simp add: py_index_def)
qed

lemma render_rows_Inr:
  "\<forall>row\<in>set rows. length row \<le> length cw \<Longrightarrow>
   render_rows cw rows = Inr (map (\<lambda>row. row_line (map2 render_cell cw row)) rows)"
proof (induction rows)
  case Nil
  then show ?case by simp
next
  case (Cons row rows)
  then have "0 + length row \<le> length cw" by simp
  then have "render_cells cw 0 row = Inr (map2 render_cell (drop 0 cw) row)"
    by (rule render_cells_Inr)
  with Cons show ?case by simp
qed

lemma length_pad_row: "length row \<le> n \<Longrightarrow> length (pad_row n row) = n"
  by (simp add: pad_row_def)

lemma length_table_row:
  "row \<in> set (table_rows table_lines) \<Longrightarrow> length row = table_num_cols table_lines"
  by (auto simp: table_rows_def table_num_cols_def intro!: length_pad_row fold_max_mem)

lemma length_table_col_widths: "length (table_col_widths ls) = table_num_cols ls"
  by (simp add: table_col_widths_def col_widths_of_def)

lemma align_table_Nil: "align_table [] = Inr []"
  by (simp add: align_table_def)

lemma align_table_eq:
  assumes "table_lines \<noteq> []"
  shows "align_table table_lines = Inr (map row_line (table_cells table_lines))"
proof -
  let ?rows = "map parse_row table_lines"
  have max: "py_max (map length ?rows) = Inr (table_num_cols table_lines)"
    using assms by (simp add: py_max_Inr table_num_cols_def)
  have "\<forall>row\<in>set (table_rows table_lines). length row \<le> length (table_col_widths table_lines)"
    by (simp add: length_table_row length_table_col_widths)
  then have "render_rows (table_col_widths table_lines) (table_rows table_lines) =
      Inr (map (\<lambda>row. row_line (map2 render_cell (table_col_widths table_lines) row))
             (table_rows table_lines))"
    by (rule render_rows_Inr)
  then show ?thesis
    using assms max
    by (simp add: align_table_def Let_def table_cells_def table_rows_def table_col_widths_def o_def)
qed

section \<open>Column widths and rendered cells\<close>

lemma all_dash_colon_iff: "all_dash_colon cell \<longleftrightarrow> set cell \<subseteq> {45, 58}"
  by (auto simp: all_dash_colon_def str_lits list_all_iff)

lemma Max_insert_max:
  "finite A \<Longrightarrow> Max (insert (max a b) A) = Max (insert (a::int) (insert b A))"
  by (cases "A = {}") (simp_all add: max.assoc)

lemma fold_width_step:
  "\<forall>row\<in>set rows. col < length row \<Longrightarrow>
   fold (width_step col) rows a =
     Max (insert a ((\<lambda>row. if all_dash_colon (row ! col) then 3 else int (length (row ! col))) ` set rows))"
proof (induction rows arbitrary: a)
  case Nil
  then show ?case by simp
next
  case (Cons row rows)
  let ?f = "\<lambda>row. if all_dash_colon (row ! col) then 3 else int (length (row ! col))"
  from Cons.prems have step: "width_step col row a = max a (?f row)"
    by (simp add: width_step_def Let_def)
  from Cons.prems have "\<forall>row\<in>set rows. col < length row" by simp
  then have "fold (width_step col) rows (max a (?f row)) = Max (insert (max a (?f row)) (?f ` set rows))"
    by (rule Cons.IH)
  also have "\<dots> = Max (insert a (insert (?f row) (?f ` set rows)))"
    by (rule Max_insert_max) simp
  finally show ?case by (simp add: step)
qed

lemma col_width_Max:
  assumes "rows \<noteq> []" and "\<forall>row\<in>set rows. col < length row"
  shows "col_width rows col =
     Max ((\<lambda>row. if all_dash_colon (row ! col) then 3 else int (length (row ! col))) ` set rows)"
proof -
  let ?f = "\<lambda>row. if all_dash_colon (row ! col) then 3 else int (length (row ! col))"
  have "col_width rows col = Max (insert 0 (?f ` set rows))"
    unfolding col_width_def using assms(2) by (rule fold_width_step)
  also have "\<dots> = max 0 (Max (?f ` set rows))"
  proof (rule Max_insert)
    show "finite (?f ` set rows)" by (rule finite_imageI) (rule finite_set)
    show "?f ` set rows \<noteq> {}" using assms(1) by (simp only: image_is_empty set_empty not_False_eq_True)
  qed
  also have "\<dots> = Max (?f ` set rows)"
  proof -
    from assms(1) obtain row where row: "row \<in> set rows" by (cases rows) auto
    have "0 \<le> ?f row" by simp
    also have "?f row \<le> Max (?f ` set rows)" using row by (intro Max_ge) simp_all
    finally show ?thesis by simp
  qed
  finally show ?thesis .
qed

lemma table_rows_nonempty: "table_lines \<noteq> [] \<Longrightarrow> table_rows table_lines \<noteq> []"
  by (simp add: table_rows_def)

lemma length_table_rows: "length (table_rows table_lines) = length table_lines"
  by (simp add: table_rows_def)

lemma table_col_widths_nth:
  "col < table_num_cols ls \<Longrightarrow> table_col_widths ls ! col = col_width (table_rows ls) col"
  by (simp add: table_col_widths_def col_widths_of_def)

lemma table_col_widths_Max:
  assumes "table_lines \<noteq> []" and "col < table_num_cols table_lines"
  shows "table_col_widths table_lines ! col =
     Max ((\<lambda>row. if all_dash_colon (row ! col) then 3 else int (length (row ! col)))
            ` set (table_rows table_lines))"
proof -
  have "\<forall>row\<in>set (table_rows table_lines). col < length row"
    using assms(2) by (simp add: length_table_row)
  with table_rows_nonempty[OF assms(1)] show ?thesis
    by (simp add: table_col_widths_nth[OF assms(2)] col_width_Max)
qed

lemma table_width_ge:
  assumes "row \<in> set (table_rows table_lines)" and "col < table_num_cols table_lines"
  shows "(if all_dash_colon (row ! col) then 3 else int (length (row ! col)))
           \<le> table_col_widths table_lines ! col"
proof -
  from assms(1) have ne: "table_lines \<noteq> []" by (auto simp: table_rows_def)
  show ?thesis
    unfolding table_col_widths_Max[OF ne assms(2)]
    using assms(1) by (intro Max_ge) auto
qed

lemma table_width_ge3:
  assumes "row \<in> set (table_rows table_lines)" and "col < table_num_cols table_lines"
    and "all_dash_colon (row ! col)"
  shows "3 \<le> table_col_widths table_lines ! col"
  using table_width_ge[OF assms(1,2)] assms(3) by simp

lemma table_width_ge_length:
  assumes "row \<in> set (table_rows table_lines)" and "col < table_num_cols table_lines"
    and "\<not> all_dash_colon (row ! col)"
  shows "int (length (row ! col)) \<le> table_col_widths table_lines ! col"
  using table_width_ge[OF assms(1,2)] assms(3) by simp

lemma str_mul_dash: "str_mul [c] n = replicate (nat n) c"
  by (induction "nat n" arbitrary: n) (auto simp: str_mul_def)

lemma length_render_cell_sep:
  "all_dash_colon cell \<Longrightarrow> 3 \<le> w \<Longrightarrow> length (render_cell w cell) = nat w"
  by (auto simp: render_cell_def str_lits str_mul_dash)

lemma length_render_cell_text:
  "\<not> all_dash_colon cell \<Longrightarrow> int (length cell) \<le> w \<Longrightarrow> length (render_cell w cell) = nat w"
  by (auto simp: render_cell_def ljust_def)

lemma table_cells_nth:
  assumes "r < length table_lines" and "c < table_num_cols table_lines"
  shows "table_cells table_lines ! r ! c =
           render_cell (table_col_widths table_lines ! c) (table_rows table_lines ! r ! c)"
proof -
  have r: "r < length (table_rows table_lines)" using assms(1) by (simp add: length_table_rows)
  then have "table_rows table_lines ! r \<in> set (table_rows table_lines)" by simp
  then have len: "length (table_rows table_lines ! r) = table_num_cols table_lines"
    by (rule length_table_row)
  show ?thesis
    using r assms(2) len by (simp add: table_cells_def length_table_col_widths)
qed

lemma length_table_cells: "length (table_cells table_lines) = length table_lines"
  by (simp add: table_cells_def length_table_rows)

lemma length_table_cells_row:
  assumes "cells \<in> set (table_cells table_lines)"
  shows "length cells = table_num_cols table_lines"
  using assms by (auto simp: table_cells_def length_table_col_widths length_table_row)

lemma length_table_cell:
  assumes "r < length table_lines" and "c < table_num_cols table_lines"
  shows "int (length (table_cells table_lines ! r ! c)) = table_col_widths table_lines ! c"
proof -
  let ?row = "table_rows table_lines ! r"
  let ?w = "table_col_widths table_lines ! c"
  have row: "?row \<in> set (table_rows table_lines)"
    using assms(1) by (simp add: length_table_rows)
  have "length (render_cell ?w (?row ! c)) = nat ?w \<and> 0 \<le> ?w"
  proof (cases "all_dash_colon (?row ! c)")
    case True
    with table_width_ge3[OF row assms(2)] show ?thesis
      by (simp add: length_render_cell_sep)
  next
    case False
    with table_width_ge_length[OF row assms(2)] show ?thesis
      by (simp add: length_render_cell_text)
  qed
  then show ?thesis by (simp add: table_cells_nth[OF assms])
qed

lemma replicate_numeral: "replicate (numeral k) x = x # replicate (pred_numeral k) x"
  by (simp add: numeral_eq_Suc)

lemmas eval_defs =
  fix_tables_in_content_def str_def is_table_row_def strip_def is_space_def startswith_def
  endswith_def align_table_def parse_row_def slice_1_m1_def pad_row_def all_dash_colon_def
  width_step_def col_width_def col_widths_of_def render_cell_def row_line_def py_max_def
  py_index_def str_mul_def ljust_def table_num_cols_def table_rows_def table_col_widths_def
  table_cells_def Let_def replicate_numeral


lemma startswith_render_cell:
  assumes "all_dash_colon cell" and "3 \<le> w"
  shows "startswith (render_cell w cell) (str '':'') \<longleftrightarrow> startswith cell (str '':'')"
proof -
  have "nat (w - 1) \<noteq> 0" "nat w \<noteq> 0" using assms(2) by simp_all
  then have "replicate (nat (w - 1)) (45::nat) \<noteq> [] \<and> hd (replicate (nat (w - 1)) (45::nat)) = 45"
    and "replicate (nat w) (45::nat) \<noteq> [] \<and> hd (replicate (nat w) (45::nat)) = 45"
    by simp_all
  then show ?thesis
    using assms(1) by (simp add: render_cell_def str_lits str_mul_dash startswith_single hd_append)
qed

lemma endswith_render_cell:
  assumes "all_dash_colon cell" and "3 \<le> w"
  shows "endswith (render_cell w cell) (str '':'') \<longleftrightarrow> endswith cell (str '':'')"
proof -
  have "nat (w - 1) \<noteq> 0" "nat w \<noteq> 0" using assms(2) by simp_all
  then have "replicate (nat (w - 1)) (45::nat) \<noteq> [] \<and> last (replicate (nat (w - 1)) (45::nat)) = 45"
    and "replicate (nat w) (45::nat) \<noteq> [] \<and> last (replicate (nat w) (45::nat)) = 45"
    by simp_all
  then show ?thesis
    using assms(1) by (simp add: render_cell_def str_lits str_mul_dash endswith_single)
qed


text \<open>
  C10. A line is a table row exactly when, after trimming the whitespace at both ends, it
  starts with the pipe character and ends with the pipe character.
\<close>

theorem is_table_row_iff:
  "is_table_row line \<longleftrightarrow>
     strip line \<noteq> [] \<and> hd (strip line) = cp CHR ''|'' \<and> last (strip line) = cp CHR ''|''"
  by (simp add: is_table_row_hd_last)

theorem is_table_row_iff_witness:
  "is_table_row (str ''  | a |b|  '') \<and> is_table_row (str ''|'') \<and> \<not> is_table_row (str ''| a'')
   \<and> \<not> is_table_row (str ''a |'') \<and> \<not> is_table_row (str '''')"
  using is_table_row_iff [of "str ''  | a |b|  ''"] is_table_row_iff [of "str ''|''"]
    is_table_row_iff [of "str ''| a''"] is_table_row_iff [of "str ''a |''"]
    is_table_row_iff [of "str ''''"]
  by (simp add: str_def strip_def is_space_def)



text \<open>
  C9. A column that holds a cell of - and : only has a width of at least 3, so the dash
  counts \<open>width - 1\<close> and \<open>width - 2\<close> of the rendering are never negative.
\<close>

theorem separator_width_at_least_3:
  assumes "r < length table_lines" and "c < table_num_cols table_lines"
    and "all_dash_colon (table_rows table_lines ! r ! c)"
    and "w = table_col_widths table_lines ! c"
  shows "3 \<le> w \<and> 0 \<le> w - 1 \<and> 0 \<le> w - 2"
proof -
  have "table_rows table_lines ! r \<in> set (table_rows table_lines)"
    using assms(1) by (simp add: length_table_rows)
  from table_width_ge3 [OF this assms(2,3)] show ?thesis
    by (simp add: assms(4))
qed

theorem separator_width_at_least_3_witness:
  "(1::nat) < length (map str [''|a|'', ''|:|'']) \<and>
   0 < table_num_cols (map str [''|a|'', ''|:|'']) \<and>
   all_dash_colon (table_rows (map str [''|a|'', ''|:|'']) ! 1 ! 0) \<and>
   table_col_widths (map str [''|a|'', ''|:|'']) ! 0 = 3 \<and>
   (3::int) \<le> 3 \<and> (0::int) \<le> 3 - 1 \<and> (0::int) \<le> 3 - 2"
  using separator_width_at_least_3 [of 1 "map str [''|a|'', ''|:|'']" 0 3]
  by (simp add: eval_defs)

text \<open>
  C3. A cell of - and : only is rendered, at the width \<open>w\<close> of its column, as a colon,
  \<open>w - 2\<close> dashes and a colon when it starts and ends with a colon; as a colon and \<open>w - 1\<close>
  dashes when it only starts with one; as \<open>w - 1\<close> dashes and a colon when it only ends with
  one; as \<open>w\<close> dashes otherwise. The marker \<^verbatim>\<open>---:\<close> under a content cell of 6 characters
  is rendered \<^verbatim>\<open>-----:\<close>.
\<close>

theorem separator_cell_rendering:
  assumes "r < length table_lines" and "c < table_num_cols table_lines"
    and "cell = table_rows table_lines ! r ! c" and "all_dash_colon cell"
    and "w = table_col_widths table_lines ! c"
  shows "align_table table_lines = Inr (map row_line (table_cells table_lines)) \<and>
     table_cells table_lines ! r ! c =
       (if startswith cell (str '':'') \<and> endswith cell (str '':'') then
          str '':'' @ replicate (nat (w - 2)) (cp CHR ''-'') @ str '':''
        else if startswith cell (str '':'') then
          str '':'' @ replicate (nat (w - 1)) (cp CHR ''-'')
        else if endswith cell (str '':'') then
          replicate (nat (w - 1)) (cp CHR ''-'') @ str '':''
        else replicate (nat w) (cp CHR ''-'')) \<and>
     align_table (map str [''|abcdef|'', ''|---:|'']) =
       Inr (map str [''| abcdef |'', ''| -----: |''])"
proof -
  from assms(1) have "table_lines \<noteq> []" by auto
  then have "align_table table_lines = Inr (map row_line (table_cells table_lines))"
    by (rule align_table_eq)
  moreover have "table_cells table_lines ! r ! c = render_cell w cell"
    by (simp add: table_cells_nth [OF assms(1,2)] assms(3,5))
  moreover have "align_table (map str [''|abcdef|'', ''|---:|'']) =
       Inr (map str [''| abcdef |'', ''| -----: |''])"
    by (simp add: eval_defs)
  ultimately show ?thesis
    using assms(4) by (simp add: render_cell_def str_lits str_mul_dash)
qed

theorem separator_cell_rendering_witness:
  "(1::nat) < length (map str [''|abcdef|'', ''|---:|'']) \<and>
   0 < table_num_cols (map str [''|abcdef|'', ''|---:|'']) \<and>
   table_rows (map str [''|abcdef|'', ''|---:|'']) ! 1 ! 0 = str ''---:'' \<and>
   all_dash_colon (str ''---:'') \<and>
   table_col_widths (map str [''|abcdef|'', ''|---:|'']) ! 0 = 6 \<and>
   table_cells (map str [''|abcdef|'', ''|---:|'']) ! 1 ! 0 = str ''-----:''"
  using separator_cell_rendering
    [of 1 "map str [''|abcdef|'', ''|---:|'']" 0 "str ''---:''" 6]
  by (simp add: eval_defs)

text \<open>
  C6. The rendering of a cell of - and : only starts with a colon exactly when the cell
  does, and ends with a colon exactly when the cell does.
\<close>

theorem alignment_markers_preserved:
  assumes "r < length table_lines" and "c < table_num_cols table_lines"
    and "cell = table_rows table_lines ! r ! c" and "all_dash_colon cell"
  shows "align_table table_lines = Inr (map row_line (table_cells table_lines)) \<and>
     (startswith (table_cells table_lines ! r ! c) (str '':'') \<longleftrightarrow> startswith cell (str '':'')) \<and>
     (endswith (table_cells table_lines ! r ! c) (str '':'') \<longleftrightarrow> endswith cell (str '':''))"
proof -
  from assms(1) have "table_lines \<noteq> []" by auto
  then have eq: "align_table table_lines = Inr (map row_line (table_cells table_lines))"
    by (rule align_table_eq)
  have "table_rows table_lines ! r \<in> set (table_rows table_lines)"
    using assms(1) by (simp add: length_table_rows)
  then have "3 \<le> table_col_widths table_lines ! c"
    using assms(2-4) by (intro table_width_ge3) simp_all
  then show ?thesis
    using eq assms(3,4)
    by (simp add: table_cells_nth [OF assms(1,2)] startswith_render_cell endswith_render_cell)
qed

theorem alignment_markers_preserved_witness:
  "(1::nat) < length (map str [''|abcdef|x|y|z|'', ''|---:|:-|:-:|-|'']) \<and>
   table_num_cols (map str [''|abcdef|x|y|z|'', ''|---:|:-|:-:|-|'']) = 4 \<and>
   table_rows (map str [''|abcdef|x|y|z|'', ''|---:|:-|:-:|-|'']) ! 1 =
     map str [''---:'', '':-'', '':-:'', ''-''] \<and>
   all_dash_colon (str ''---:'') \<and>
   table_cells (map str [''|abcdef|x|y|z|'', ''|---:|:-|:-:|-|'']) ! 1 =
     map str [''-----:'', '':--'', '':-:'', ''---''] \<and>
   \<not> startswith (str ''-----:'') (str '':'') \<and> endswith (str ''-----:'') (str '':'')"
  using alignment_markers_preserved
    [of 1 "map str [''|abcdef|x|y|z|'', ''|---:|:-|:-:|-|'']" 0 "str ''---:''"]
  by (simp add: eval_defs)



section \<open>The loop over the lines\<close>

lemma collect_table_eq:
  "collect_table ls = (takeWhile is_table_row ls, dropWhile is_table_row ls)"
  by (induction ls) auto

lemma collect_table_block:
  assumes "\<forall>l\<in>set block. is_table_row l" and "rest = [] \<or> \<not> is_table_row (hd rest)"
  shows "collect_table (block @ rest) = (block, rest)"
proof -
  have "takeWhile is_table_row (block @ rest) = block"
    using assms by (cases rest) (simp_all add: takeWhile_append2)
  moreover have "dropWhile is_table_row (block @ rest) = rest"
    using assms by (cases rest) (simp_all add: dropWhile_append2)
  ultimately show ?thesis by (simp add: collect_table_eq)
qed

lemma fix_lines_line:
  "\<not> is_table_row l \<Longrightarrow> fix_lines (l # ls) result = fix_lines ls (result @ [l])"
  by simp

lemma fix_lines_block:
  assumes "block \<noteq> []" and "\<forall>l\<in>set block. is_table_row l"
    and "rest = [] \<or> \<not> is_table_row (hd rest)"
  shows "fix_lines (block @ rest) result =
     fix_lines rest
       (result @ (if result \<noteq> [] \<and> strip (last result) \<noteq> [] then [[]] else [])
          @ map row_line (table_cells block)
          @ (if rest \<noteq> [] \<and> strip (hd rest) \<noteq> [] then [[]] else []))"
proof -
  from assms(1) obtain l ls where block: "block = l # ls" by (cases block) auto
  then have l: "is_table_row l" using assms(2) by simp
  have c: "collect_table (l # ls @ rest) = (block, rest)"
    using collect_table_block [OF assms(2,3)] by (simp add: block)
  have "fix_lines (l # ls @ rest) result =
     fix_lines rest
       (result @ (if result \<noteq> [] \<and> strip (last result) \<noteq> [] then [[]] else [])
          @ map row_line (table_cells block)
          @ (if rest \<noteq> [] \<and> strip (hd rest) \<noteq> [] then [[]] else []))"
    using l by (simp add: c align_table_eq [OF assms(1)] del: collect_table.simps)
  then show ?thesis by (simp add: block)
qed

lemma lines_induct [case_names Nil Line Block]:
  assumes nil: "\<And>res. P [] res"
    and line: "\<And>l ls res. \<not> is_table_row l \<Longrightarrow> (\<And>res'. P ls res') \<Longrightarrow> P (l # ls) res"
    and block: "\<And>block rest res. block \<noteq> [] \<Longrightarrow> \<forall>l\<in>set block. is_table_row l \<Longrightarrow>
        rest = [] \<or> \<not> is_table_row (hd rest) \<Longrightarrow> (\<And>res'. P rest res') \<Longrightarrow> P (block @ rest) res"
  shows "P (ls :: pystr list) (res :: pystr list)"
proof (induction "length ls" arbitrary: ls res rule: less_induct)
  case (less ls res)
  show ?case
  proof (cases ls)
    case Nil
    then show ?thesis by (simp add: nil)
  next
    case (Cons l ls')
    show ?thesis
    proof (cases "is_table_row l")
      case False
      have "P ls' res'" for res' by (rule less) (simp add: Cons)
      with False show ?thesis unfolding Cons by (rule line)
    next
      case True
      let ?b = "takeWhile is_table_row ls" and ?r = "dropWhile is_table_row ls"
      have b: "?b \<noteq> []" using True by (simp add: Cons)
      have all: "\<forall>l\<in>set ?b. is_table_row l" by (auto dest: set_takeWhileD)
      have r: "?r = [] \<or> \<not> is_table_row (hd ?r)"
        using hd_dropWhile [of is_table_row ls] by blast
      have "length ?b + length ?r = length ls"
        by (metis length_append takeWhile_dropWhile_id)
      with b have "length ?r < length ls" by (cases ?b) auto
      then have "P ?r res'" for res' by (rule less)
      with b all r have "P (?b @ ?r) res" by (rule block)
      then show ?thesis by simp
    qed
  qed
qed

lemma fix_lines_extends: "\<exists>d. fix_lines ls res = Inr (res @ d)"
proof (induction ls res rule: lines_induct)
  case (Nil res)
  then show ?case by simp
next
  case (Line l ls res)
  from Line(2) [of "res @ [l]"] obtain d where "fix_lines ls (res @ [l]) = Inr ((res @ [l]) @ d)" ..
  with Line(1) show ?case by simp
next
  case (Block block rest res)
  let ?res' = "res @ (if res \<noteq> [] \<and> strip (last res) \<noteq> [] then [[]] else [])
          @ map row_line (table_cells block)
          @ (if rest \<noteq> [] \<and> strip (hd rest) \<noteq> [] then [[]] else [])"
  from Block(4) [of ?res'] obtain d where "fix_lines rest ?res' = Inr (?res' @ d)" ..
  then show ?case
    unfolding fix_lines_block [OF Block(1-3)] by (metis append.assoc)
qed

lemma fix_lines_total: "\<exists>out. fix_lines ls res = Inr out"
  using fix_lines_extends [of ls res] by blast

lemma fix_tables_in_content_total: "\<exists>out. fix_tables_in_content content = Inr out"
proof -
  obtain out where "fix_lines (split content (cp CHR 0x0A)) [] = Inr out"
    using fix_lines_total by blast
  then show ?thesis by (simp add: fix_tables_in_content_def)
qed

text \<open>
  C8. \<open>fix_tables_in_content\<close> returns a result on every input string and raises nothing,
  also on a lone pipe, on a pair of pipes and on rows of different numbers of cells.
\<close>

theorem fix_tables_in_content_never_fails:
  "(\<exists>out. fix_tables_in_content content = Inr out) \<and>
   fix_tables_in_content (str ''|'') = Inr (str ''|  |'') \<and>
   fix_tables_in_content (str ''||'') = Inr (str ''| --- |'') \<and>
   fix_tables_in_content (str (''|a|b|c|'' @ [CHR 0x0A] @ ''|'' @ [CHR 0x0A] @ ''||d|'')) =
     Inr (str (''| a   | b   | c   |'' @ [CHR 0x0A] @ ''| --- | --- | --- |'' @ [CHR 0x0A] @
       ''| --- | d   | --- |''))"
proof -
  have "fix_tables_in_content (str ''|'') = Inr (str ''|  |'')"
    by (simp add: eval_defs)
  moreover have "fix_tables_in_content (str ''||'') = Inr (str ''| --- |'')"
    by (simp add: eval_defs)
  moreover have
    "fix_tables_in_content (str (''|a|b|c|'' @ [CHR 0x0A] @ ''|'' @ [CHR 0x0A] @ ''||d|'')) =
     Inr (str (''| a   | b   | c   |'' @ [CHR 0x0A] @ ''| --- | --- | --- |'' @ [CHR 0x0A] @
       ''| --- | d   | --- |''))"
    by (simp add: eval_defs)
  ultimately show ?thesis
    using fix_tables_in_content_total by simp
qed

theorem fix_tables_in_content_never_fails_witness:
  "\<exists>out. fix_tables_in_content (str (''x'' @ [CHR 0x0A] @ ''|'' @ [CHR 0x0A] @ ''| a'')) = Inr out"
  using fix_tables_in_content_never_fails
    [of "str (''x'' @ [CHR 0x0A] @ ''|'' @ [CHR 0x0A] @ ''| a'')"]
  by simp

lemma strip_id:
  assumes "s \<noteq> []" and "\<not> is_space (hd s)" and "\<not> is_space (last s)"
  shows "strip s = s"
proof -
  have 1: "dropWhile is_space s = s"
    using assms(2) by (simp add: dropWhile_eq_self_iff)
  have "\<not> is_space (hd (rev s))"
    using assms(1,3) by (simp add: hd_rev)
  then have 2: "dropWhile is_space (rev s) = rev s"
    by (simp add: dropWhile_eq_self_iff)
  show ?thesis by (simp add: strip_def 1 2)
qed

lemma strip_Nil: "strip [] = []"
  by (simp add: strip_def)

lemma is_table_row_row_line: "is_table_row (row_line cells)"
proof -
  let ?s = "row_line cells"
  have s: "?s \<noteq> []" "hd ?s = 124" "last ?s = 124"
    by (simp_all add: row_line_def str_lits)
  then have "strip ?s = ?s" by (intro strip_id) (simp_all add: is_space_lits)
  with s show ?thesis by (simp add: is_table_row_hd_last)
qed

lemma not_table_row_Nil: "\<not> is_table_row []"
  by (simp add: is_table_row_hd_last strip_Nil)

lemma not_table_row_blank: "strip l = [] \<Longrightarrow> \<not> is_table_row l"
  by (simp add: is_table_row_hd_last)

lemma fix_lines_append:
  "pre = [] \<or> \<not> is_table_row (last pre) \<Longrightarrow> fix_lines pre res = Inr out \<Longrightarrow>
   fix_lines (pre @ xs) res = fix_lines xs out"
proof (induction pre res rule: lines_induct)
  case (Nil res)
  then show ?case by simp
next
  case (Line l ls res)
  from Line.prems(1) have "ls = [] \<or> \<not> is_table_row (last ls)" by (auto split: if_splits)
  moreover from Line.prems(2) Line.hyps have "fix_lines ls (res @ [l]) = Inr out" by simp
  ultimately have "fix_lines (ls @ xs) (res @ [l]) = fix_lines xs out" by (rule Line.IH)
  with Line.hyps show ?case by simp
next
  case (Block block rest res)
  let ?res' = "res @ (if res \<noteq> [] \<and> strip (last res) \<noteq> [] then [[]] else [])
          @ map row_line (table_cells block)
          @ (if rest \<noteq> [] \<and> strip (hd rest) \<noteq> [] then [[]] else [])"
  have rest: "rest \<noteq> []"
  proof
    assume "rest = []"
    with Block.prems(1) Block.hyps(1) have "\<not> is_table_row (last block)" by simp
    with Block.hyps(1,2) show False by simp
  qed
  with Block.prems(1) have 1: "rest = [] \<or> \<not> is_table_row (last rest)" by simp
  from Block.prems(2) have 2: "fix_lines rest ?res' = Inr out"
    by (simp only: fix_lines_block [OF Block.hyps(1-3)])
  have 3: "rest @ xs = [] \<or> \<not> is_table_row (hd (rest @ xs))"
    using rest Block.hyps(3) by simp
  have "fix_lines (block @ rest @ xs) res = fix_lines (rest @ xs) ?res'"
    using rest by (simp add: fix_lines_block [OF Block.hyps(1,2) 3])
  also have "\<dots> = fix_lines xs out" using 1 2 by (rule Block.IH)
  finally show ?case by simp
qed

lemma fix_lines_first:
  assumes "\<not> is_table_row l"
  shows "\<exists>d. fix_lines (l # ls) res = Inr (res @ l # d)"
proof -
  obtain d where "fix_lines ls (res @ [l]) = Inr ((res @ [l]) @ d)"
    using fix_lines_extends by blast
  with assms show ?thesis by simp
qed

lemma fix_lines_last:
  "\<not> is_table_row l \<Longrightarrow> \<exists>d. fix_lines (ls @ [l]) res = Inr (res @ d @ [l])"
proof (induction ls res rule: lines_induct)
  case (Nil res)
  then show ?case by simp
next
  case (Line l' ls res)
  from Line.IH [OF Line.prems, of "res @ [l']"]
  obtain d where "fix_lines (ls @ [l]) (res @ [l']) = Inr ((res @ [l']) @ d @ [l])" ..
  with Line.hyps have "fix_lines ((l' # ls) @ [l]) res = Inr (res @ (l' # d) @ [l])" by simp
  then show ?case ..
next
  case (Block block rest res)
  let ?res' = "res @ (if res \<noteq> [] \<and> strip (last res) \<noteq> [] then [[]] else [])
          @ map row_line (table_cells block)
          @ (if rest @ [l] \<noteq> [] \<and> strip (hd (rest @ [l])) \<noteq> [] then [[]] else [])"
  have 3: "rest @ [l] = [] \<or> \<not> is_table_row (hd (rest @ [l]))"
    using Block.hyps(3) Block.prems by (cases rest) simp_all
  from Block.IH [OF Block.prems, of ?res']
  obtain d where d: "fix_lines (rest @ [l]) ?res' = Inr (?res' @ d @ [l])" ..
  have "fix_lines (block @ rest @ [l]) res = fix_lines (rest @ [l]) ?res'"
    by (rule fix_lines_block [OF Block.hyps(1,2) 3])
  with d have "fix_lines ((block @ rest) @ [l]) res = Inr (?res' @ d @ [l])" by simp
  then show ?case by (metis append.assoc)
qed

lemma fix_lines_reflowed: "\<exists>d. fix_lines ls res = Inr (res @ d) \<and> reflowed ls d"
proof (induction ls res rule: lines_induct)
  case (Nil res)
  then show ?case by (simp add: reflowed.Nil)
next
  case (Line l ls res)
  from Line.IH [of "res @ [l]"]
  obtain d where "fix_lines ls (res @ [l]) = Inr ((res @ [l]) @ d)" "reflowed ls d" by blast
  with Line.hyps have "fix_lines (l # ls) res = Inr (res @ l # d) \<and> reflowed (l # ls) (l # d)"
    by (simp add: reflowed.Line)
  then show ?case ..
next
  case (Block block rest res)
  let ?before = "if res \<noteq> [] \<and> strip (last res) \<noteq> [] then [[]] else []"
  let ?after = "if rest \<noteq> [] \<and> strip (hd rest) \<noteq> [] then [[]] else []"
  let ?aligned = "map row_line (table_cells block)"
  let ?res' = "res @ ?before @ ?aligned @ ?after"
  from Block.IH [of ?res']
  obtain d where d: "fix_lines rest ?res' = Inr (?res' @ d)" "reflowed rest d" by blast
  have "fix_lines (block @ rest) res = Inr (res @ (?before @ ?aligned @ ?after @ d))"
    using d(1) by (simp add: fix_lines_block [OF Block.hyps(1-3)])
  moreover have "reflowed (block @ rest) (?before @ ?aligned @ ?after @ d)"
    using Block.hyps(1-3) align_table_eq [OF Block.hyps(1)] _ _ d(2)
    by (rule reflowed.Block) (simp_all add: str_lits)
  ultimately show ?case by blast
qed

lemma reflowed_filter:
  "reflowed ls out \<Longrightarrow>
   filter (\<lambda>l. \<not> is_table_row l \<and> l \<noteq> []) out = filter (\<lambda>l. \<not> is_table_row l \<and> l \<noteq> []) ls"
proof (induction rule: reflowed.induct)
  case Nil
  then show ?case by simp
next
  case (Line l ls out)
  then show ?case by simp
next
  case (Block block ls aligned before after out)
  from Block(1,4) have "aligned = map row_line (table_cells block)"
    by (simp add: align_table_eq)
  then have "filter (\<lambda>l. \<not> is_table_row l \<and> l \<noteq> []) aligned = []"
    by (simp add: is_table_row_row_line)
  moreover have "filter (\<lambda>l. \<not> is_table_row l \<and> l \<noteq> []) block = []"
    using Block(2) by simp
  moreover have "filter (\<lambda>l. \<not> is_table_row l \<and> l \<noteq> []) before = []"
    "filter (\<lambda>l. \<not> is_table_row l \<and> l \<noteq> []) after = []"
    using Block(5,6) by (auto simp: str_lits)
  ultimately show ?case using Block.IH by simp
qed

lemmas eval_doc = doc_def

text \<open>
  C5. Where the lines of a document are \<open>pre\<close>, a maximal run \<open>block\<close> of table rows and
  \<open>rest\<close>, the output is the output for \<open>pre\<close>, an empty line exactly when that output
  exists and ends in a line that is not blank, the aligned block, an empty line exactly
  when \<open>rest\<close> exists and starts with a line that is not blank, and a tail. The line before
  the block is the last line of \<open>pre\<close> and the tail starts with the first line of \<open>rest\<close>,
  so a blank line that is already there is not doubled.
\<close>

theorem blank_line_enforcement:
  assumes "split content (cp CHR 0x0A) = pre @ block @ rest"
    and "block \<noteq> []" and "\<forall>l\<in>set block. is_table_row l"
    and "pre = [] \<or> \<not> is_table_row (last pre)"
    and "rest = [] \<or> \<not> is_table_row (hd rest)"
  shows "\<exists>out_pre aligned tail.
     fix_lines pre [] = Inr out_pre \<and> align_table block = Inr aligned \<and>
     fix_tables_in_content content =
       Inr (join (str [CHR 0x0A])
         (out_pre
          @ (if out_pre \<noteq> [] \<and> strip (last out_pre) \<noteq> str '''' then [str ''''] else [])
          @ aligned
          @ (if rest \<noteq> [] \<and> strip (hd rest) \<noteq> str '''' then [str ''''] else [])
          @ tail)) \<and>
     (if pre = [] then out_pre = [] else out_pre \<noteq> [] \<and> last out_pre = last pre) \<and>
     (if rest = [] then tail = [] else tail \<noteq> [] \<and> hd tail = hd rest)"
proof -
  let ?aligned = "map row_line (table_cells block)"
  obtain out_pre where pre: "fix_lines pre [] = Inr out_pre"
    using fix_lines_total by blast
  let ?res' = "out_pre @ (if out_pre \<noteq> [] \<and> strip (last out_pre) \<noteq> [] then [[]] else [])
          @ ?aligned @ (if rest \<noteq> [] \<and> strip (hd rest) \<noteq> [] then [[]] else [])"
  obtain tail where tail: "fix_lines rest ?res' = Inr (?res' @ tail)"
    using fix_lines_extends by blast
  have "fix_lines (pre @ block @ rest) [] = fix_lines (block @ rest) out_pre"
    using assms(4) pre by (rule fix_lines_append)
  also have "\<dots> = fix_lines rest ?res'"
    by (rule fix_lines_block [OF assms(2,3,5)])
  finally have all: "fix_lines (pre @ block @ rest) [] = Inr (?res' @ tail)"
    by (simp only: tail)
  have out_pre: "if pre = [] then out_pre = [] else out_pre \<noteq> [] \<and> last out_pre = last pre"
  proof (cases pre rule: rev_cases)
    case Nil
    with pre show ?thesis by simp
  next
    case (snoc ys l)
    with assms(4) have "\<not> is_table_row l" by simp
    then obtain d where "fix_lines (ys @ [l]) [] = Inr ([] @ d @ [l])"
      using fix_lines_last by blast
    with pre snoc have "out_pre = d @ [l]" by simp
    with snoc show ?thesis by simp
  qed
  have tl: "if rest = [] then tail = [] else tail \<noteq> [] \<and> hd tail = hd rest"
  proof (cases rest)
    case Nil
    with tail show ?thesis by simp
  next
    case (Cons l ls)
    with assms(5) have "\<not> is_table_row l" by simp
    then obtain d where "fix_lines (l # ls) ?res' = Inr (?res' @ l # d)"
      using fix_lines_first by blast
    with tail Cons show ?thesis by simp
  qed
  have "fix_tables_in_content content = Inr (join (str [CHR 0x0A]) (?res' @ tail))"
    by (simp only: fix_tables_in_content_def Let_def assms(1) all sum.case)
  with pre align_table_eq [OF assms(2)] out_pre tl show ?thesis
    by (intro exI [of _ out_pre] exI [of _ ?aligned] exI [of _ tail]) (simp add: str_lits)
qed

theorem blank_line_enforcement_witness:
  "split (doc [''intro'', ''|a|b|'', '''', ''|c|'', ''end'']) (cp CHR 0x0A) =
     [str ''intro''] @ [str ''|a|b|''] @ [str '''', str ''|c|'', str ''end''] \<and>
   is_table_row (str ''|a|b|'') \<and> \<not> is_table_row (str ''intro'') \<and> \<not> is_table_row (str '''') \<and>
   fix_tables_in_content (doc [''intro'', ''|a|b|'', '''', ''|c|'', ''end'']) =
     Inr (doc [''intro'', '''', ''| a | b |'', '''', ''| c |'', '''', ''end''])"
  using blank_line_enforcement [of "doc [''intro'', ''|a|b|'', '''', ''|c|'', ''end'']"
    "[str ''intro'']" "[str ''|a|b|'']" "[str '''', str ''|c|'', str ''end'']"]
  by (simp add: eval_defs eval_doc)

text \<open>
  C7. The output lines are the input lines reflowed: every line that is no table row is
  kept as it is, in its place among the other lines and the table blocks, and the only
  lines added are empty lines directly before or after a table block. In particular the
  lines that are neither table rows nor empty are the same, in the same order.
\<close>

theorem non_table_lines_verbatim:
  "\<exists>out. fix_lines (split content (cp CHR 0x0A)) [] = Inr out \<and>
     fix_tables_in_content content = Inr (join (str [CHR 0x0A]) out) \<and>
     reflowed (split content (cp CHR 0x0A)) out \<and>
     filter (\<lambda>l. \<not> is_table_row l \<and> l \<noteq> str '''') out =
       filter (\<lambda>l. \<not> is_table_row l \<and> l \<noteq> str '''') (split content (cp CHR 0x0A))"
proof -
  obtain out where out: "fix_lines (split content (cp CHR 0x0A)) [] = Inr ([] @ out)"
    "reflowed (split content (cp CHR 0x0A)) out"
    using fix_lines_reflowed by blast
  from out(2) have "filter (\<lambda>l. \<not> is_table_row l \<and> l \<noteq> []) out =
      filter (\<lambda>l. \<not> is_table_row l \<and> l \<noteq> []) (split content (cp CHR 0x0A))"
    by (rule reflowed_filter)
  with out show ?thesis
    by (intro exI [of _ out]) (simp add: fix_tables_in_content_def str_lits)
qed

theorem non_table_lines_verbatim_witness:
  "fix_tables_in_content (doc [''intro'', ''|a|b|'', '' '', ''|c|'', ''end'']) =
     Inr (doc [''intro'', '''', ''| a | b |'', '' '', ''| c |'', '''', ''end'']) \<and>
   reflowed (map str [''intro'', ''|a|b|'', '' '', ''|c|'', ''end''])
     (map str [''intro'', '''', ''| a | b |'', '' '', ''| c |'', '''', ''end'']) \<and>
   filter (\<lambda>l. \<not> is_table_row l \<and> l \<noteq> str '''')
     (map str [''intro'', '''', ''| a | b |'', '' '', ''| c |'', '''', ''end'']) =
     map str [''intro'', '' '', ''end'']"
  using non_table_lines_verbatim [of "doc [''intro'', ''|a|b|'', '' '', ''|c|'', ''end'']"]
  by (simp add: eval_defs eval_doc)

section \<open>Running the transform on its own output\<close>

subsection \<open>strip\<close>

lemma last_dropWhile: "dropWhile P xs \<noteq> [] \<Longrightarrow> last (dropWhile P xs) = last xs"
proof -
  assume ne: "dropWhile P xs \<noteq> []"
  have "last xs = last (takeWhile P xs @ dropWhile P xs)" by simp
  also have "\<dots> = last (dropWhile P xs)" using ne by (simp only: last_append if_False)
  finally show ?thesis by simp
qed

lemma strip_ends:
  assumes "strip s \<noteq> []"
  shows "\<not> is_space (hd (strip s))" and "\<not> is_space (last (strip s))"
proof -
  let ?t = "dropWhile is_space s"
  let ?u = "dropWhile is_space (rev ?t)"
  from assms have u: "?u \<noteq> []" by (simp add: strip_def)
  have t: "?t \<noteq> []"
  proof
    assume "?t = []"
    then have "?u = []" by (simp only: rev.simps dropWhile.simps)
    with u show False by simp
  qed
  have "last (strip s) = hd ?u" using u by (simp add: strip_def last_rev)
  moreover have "\<not> is_space (hd ?u)" using u by (rule hd_dropWhile)
  ultimately show "\<not> is_space (last (strip s))" by simp
  have "hd (strip s) = last ?u" using u by (simp add: strip_def hd_rev)
  also have "\<dots> = last (rev ?t)" using u by (rule last_dropWhile)
  also have "\<dots> = hd ?t" using t by (simp add: last_rev)
  finally have "hd (strip s) = hd ?t" .
  moreover have "\<not> is_space (hd ?t)" using t by (rule hd_dropWhile)
  ultimately show "\<not> is_space (hd (strip s))" by simp
qed

lemma strip_strip: "strip (strip s) = strip s"
proof (cases "strip s = []")
  case True
  then show ?thesis by (simp add: strip_Nil)
next
  case False
  then show ?thesis by (intro strip_id strip_ends)
qed

lemma strip_prepend_spaces:
  assumes "\<forall>c\<in>set ws. is_space c"
  shows "strip (ws @ s) = strip s"
proof -
  have "dropWhile is_space (ws @ s) = dropWhile is_space s"
    by (rule dropWhile_append2) (use assms in auto)
  then show ?thesis by (simp add: strip_def)
qed

lemma strip_all_spaces:
  assumes "\<forall>c\<in>set s. is_space c"
  shows "strip s = []"
proof -
  have "dropWhile is_space s = []" using assms by simp
  then show ?thesis by (simp only: strip_def rev.simps dropWhile.simps)
qed

lemma strip_append_spaces:
  assumes "\<forall>c\<in>set ws. is_space c"
  shows "strip (s @ ws) = strip s"
proof (cases "\<forall>c\<in>set s. is_space c")
  case True
  with assms have "\<forall>c\<in>set (s @ ws). is_space c" by auto
  then have "strip (s @ ws) = []" by (rule strip_all_spaces)
  with True show ?thesis by (simp add: strip_all_spaces)
next
  case False
  then obtain x where "x \<in> set s" "\<not> is_space x" by blast
  then have "dropWhile is_space (s @ ws) = dropWhile is_space s @ ws"
    by (rule dropWhile_append1)
  moreover have "dropWhile is_space (rev ws @ t) = dropWhile is_space t" for t
    by (rule dropWhile_append2) (use assms in auto)
  ultimately show ?thesis by (simp add: strip_def)
qed

lemma set_strip: "set (strip s) \<subseteq> set s"
proof -
  have "set (dropWhile is_space xs) \<subseteq> set xs" for xs :: pystr
    by (auto dest: set_dropWhileD)
  from this [of "rev (dropWhile is_space s)"] this [of s] show ?thesis
    by (auto simp: strip_def)
qed

subsection \<open>split and join\<close>

lemma split_nonempty: "split s sep \<noteq> []"
  by (induction s) (auto split: list.splits)

lemma split_no_sep: "x \<in> set (split s sep) \<Longrightarrow> sep \<notin> set x"
proof (induction s arbitrary: x)
  case Nil
  then show ?case by simp
next
  case (Cons c cs)
  show ?case
  proof (cases "c = sep")
    case True
    with Cons show ?thesis by auto
  next
    case False
    obtain y ys where s: "split cs sep = y # ys"
      using split_nonempty [of cs sep] by (cases "split cs sep") auto
    with Cons.prems False have "x = c # y \<or> x \<in> set ys" by simp
    with Cons.IH [of y] Cons.IH [of x] s False show ?thesis by auto
  qed
qed

lemma split_set: "x \<in> set (split s sep) \<Longrightarrow> set x \<subseteq> set s"
proof (induction s arbitrary: x)
  case Nil
  then show ?case by simp
next
  case (Cons c cs)
  show ?case
  proof (cases "c = sep")
    case True
    with Cons show ?thesis by auto
  next
    case False
    obtain y ys where s: "split cs sep = y # ys"
      using split_nonempty [of cs sep] by (cases "split cs sep") auto
    with Cons.prems False have "x = c # y \<or> x \<in> set ys" by simp
    with Cons.IH [of y] Cons.IH [of x] s show ?thesis by auto
  qed
qed

lemma split_append_sep: "sep \<notin> set a \<Longrightarrow> split (a @ sep # b) sep = a # split b sep"
  by (induction a) auto

lemma split_no_sep_id: "sep \<notin> set a \<Longrightarrow> split a sep = [a]"
  by (induction a) auto

lemma join_Cons: "xs \<noteq> [] \<Longrightarrow> join sep (x # xs) = x @ sep @ join sep xs"
  by (cases xs) simp_all

lemma join_snoc: "xs \<noteq> [] \<Longrightarrow> join sep (xs @ [x]) = join sep xs @ sep @ x"
  by (induction xs rule: list_nonempty_induct) (simp_all add: join_Cons)

lemma split_join:
  "xs \<noteq> [] \<Longrightarrow> \<forall>x\<in>set xs. sep \<notin> set x \<Longrightarrow> split (join [sep] xs) sep = xs"
proof (induction xs rule: list_nonempty_induct)
  case (single x)
  then show ?case by (simp add: split_no_sep_id)
next
  case (cons x xs)
  then have "split (x @ sep # join [sep] xs) sep = x # split (join [sep] xs) sep"
    by (intro split_append_sep) simp
  with cons show ?case by (simp add: join_Cons)
qed

lemma set_join: "set (join sep xs) \<subseteq> set sep \<union> \<Union> (set ` set xs)"
  by (induction sep xs rule: join.induct) auto

subsection \<open>Reading a rendered row back\<close>

lemma join_cells:
  "cells \<noteq> [] \<Longrightarrow>
   [32] @ join [32, 124, 32] cells @ [32] = join [124] (map (\<lambda>c. 32 # c @ [32]) cells)"
  by (induction cells rule: list_nonempty_induct) (simp_all add: join_Cons)

lemma row_line_join:
  assumes "cells \<noteq> []"
  shows "row_line cells = join [124] ([] # map (\<lambda>c. 32 # c @ [32]) cells @ [[]])"
proof -
  let ?ys = "map (\<lambda>c. 32 # c @ [32]) cells"
  have "row_line cells = [124] @ ([32] @ join [32, 124, 32] cells @ [32]) @ [124]"
    by (simp add: row_line_def str_lits)
  also have "\<dots> = [124] @ join [124] ?ys @ [124]"
    by (simp only: join_cells [OF assms])
  also have "\<dots> = [124] @ join [124] (?ys @ [[]])"
    using assms by (simp add: join_snoc)
  also have "\<dots> = join [124] ([] # ?ys @ [[]])"
    by (simp add: join_Cons)
  finally show ?thesis .
qed

lemma strip_row_line: "strip (row_line cells) = row_line cells"
proof -
  let ?s = "row_line cells"
  have s: "?s \<noteq> []" "hd ?s = 124" "last ?s = 124"
    by (simp_all add: row_line_def str_lits)
  then show ?thesis by (intro strip_id) (simp_all add: is_space_lits)
qed

lemma strip_wrapped: "strip (32 # c @ [32]) = strip c"
proof -
  have "strip ([32] @ (c @ [32])) = strip (c @ [32])"
    by (rule strip_prepend_spaces) (simp add: is_space_lits)
  also have "\<dots> = strip c"
    by (rule strip_append_spaces) (simp add: is_space_lits)
  finally show ?thesis by simp
qed

lemma parse_row_row_line:
  assumes "cells \<noteq> []" and "\<forall>c\<in>set cells. 124 \<notin> set c"
  shows "parse_row (row_line cells) = map strip cells"
proof -
  let ?ys = "map (\<lambda>c. 32 # c @ [32]) cells"
  have "\<forall>x\<in>set ([] # ?ys @ [[]]). 124 \<notin> set x"
    using assms(2) by auto
  then have "split (join [124] ([] # ?ys @ [[]])) 124 = [] # ?ys @ [[]]"
    by (intro split_join) simp_all
  then have "split (row_line cells) 124 = [] # ?ys @ [[]]"
    by (simp only: row_line_join [OF assms(1)])
  then show ?thesis
    by (simp add: parse_row_def strip_row_line slice_1_m1_def strip_wrapped o_def)
qed

subsection \<open>The cells of a table\<close>

lemma parse_row_cell:
  assumes "c \<in> set (parse_row l)"
  shows "124 \<notin> set c" and "strip c = c"
proof -
  from assms obtain x where x: "x \<in> set (butlast (tl (split (strip l) 124)))" and c: "c = strip x"
    by (auto simp: parse_row_def slice_1_m1_def)
  from x have "x \<in> set (tl (split (strip l) 124))" by (rule in_set_butlastD)
  then have "x \<in> set (split (strip l) 124)" by (rule list.set_sel(2) [rotated]) (simp add: split_nonempty)
  then have "124 \<notin> set x" by (rule split_no_sep)
  with set_strip [of x] show "124 \<notin> set c" by (auto simp: c)
  show "strip c = c" by (simp add: c strip_strip)
qed

lemma table_rows_cell:
  assumes "row \<in> set (table_rows b)" and "c \<in> set row"
  shows "124 \<notin> set c" and "strip c = c"
proof -
  from assms have "(\<exists>l. c \<in> set (parse_row l)) \<or> c = []"
    by (auto simp: table_rows_def pad_row_def)
  then show "124 \<notin> set c" and "strip c = c"
    by (auto simp: parse_row_cell strip_Nil)
qed

lemma set_render_cell: "set (render_cell w c) \<subseteq> set c \<union> {32, 45, 58}"
  by (auto simp: render_cell_def str_lits str_mul_dash ljust_def)

lemma all_dash_colon_render: "all_dash_colon c \<Longrightarrow> all_dash_colon (render_cell w c)"
  by (auto simp: render_cell_def str_lits str_mul_dash all_dash_colon_iff)

lemma table_cells_cell:
  assumes "cells \<in> set (table_cells b)" and "c \<in> set cells"
  shows "set c \<subseteq> \<Union> (set ` \<Union> (set ` set (table_rows b))) \<union> {32, 45, 58}"
proof -
  from assms obtain row w x where "row \<in> set (table_rows b)" "x \<in> set row" "c = render_cell w x"
    by (auto simp: table_cells_def dest!: set_zip_rightD)
  with set_render_cell [of w x] show ?thesis by auto
qed

lemma table_cells_no_pipe:
  assumes "cells \<in> set (table_cells b)" and "c \<in> set cells"
  shows "124 \<notin> set c"
proof
  assume "124 \<in> set c"
  with table_cells_cell [OF assms] obtain row x where "row \<in> set (table_rows b)" "x \<in> set row"
    "124 \<in> set x" by auto
  with table_rows_cell(1) show False by blast
qed

lemma strip_render_cell:
  assumes "strip c = c" and "all_dash_colon c \<longrightarrow> 3 \<le> w"
  shows "strip (render_cell w c) = (if all_dash_colon c then render_cell w c else c)"
proof (cases "all_dash_colon c")
  case True
  let ?r = "render_cell w c"
  from True assms(2) have "length ?r = nat w" "3 \<le> w" by (simp_all add: length_render_cell_sep)
  then have ne: "?r \<noteq> []" by auto
  then have "hd ?r \<in> set ?r" "last ?r \<in> set ?r" by simp_all
  moreover have "set ?r \<subseteq> {45, 58}"
    using all_dash_colon_render [OF True] by (simp add: all_dash_colon_iff)
  ultimately have "\<not> is_space (hd ?r)" "\<not> is_space (last ?r)"
    using is_space_lits by auto
  with ne have "strip ?r = ?r" by (rule strip_id)
  with True show ?thesis by simp
next
  case False
  have "strip (c @ replicate (nat (w - int (length c))) 32) = strip c"
    by (rule strip_append_spaces) (simp add: is_space_lits)
  with False assms(1) show ?thesis by (simp add: render_cell_def ljust_def)
qed

lemma render_cell_again:
  assumes "strip c = c" and "all_dash_colon c \<longrightarrow> 3 \<le> w"
  shows "render_cell w (strip (render_cell w c)) = render_cell w c"
proof (cases "all_dash_colon c")
  case True
  let ?r = "render_cell w c"
  from True assms(2) have w: "3 \<le> w" by simp
  have a: "all_dash_colon ?r" using True by (rule all_dash_colon_render)
  have s: "startswith ?r (str '':'') = startswith c (str '':'')"
    using True w by (rule startswith_render_cell)
  have e: "endswith ?r (str '':'') = endswith c (str '':'')"
    using True w by (rule endswith_render_cell)
  have "render_cell w ?r = ?r"
    by (simp add: render_cell_def [of w ?r] a s e) (simp add: render_cell_def True)
  with True assms show ?thesis by (simp add: strip_render_cell)
next
  case False
  with assms show ?thesis by (simp add: strip_render_cell)
qed

lemma contribution_render_cell:
  assumes "strip c = c" and "all_dash_colon c \<longrightarrow> 3 \<le> w"
  shows "(if all_dash_colon (strip (render_cell w c)) then 3
          else int (length (strip (render_cell w c)))) =
         (if all_dash_colon c then 3 else int (length c))"
  using assms all_dash_colon_render [of c w] by (simp add: strip_render_cell)


subsection \<open>Aligning an aligned table\<close>

lemma fold_max_const:
  assumes "xs \<noteq> []" and "\<forall>x\<in>set xs. x = (n::nat)"
  shows "fold max xs 0 = n"
proof -
  from assms have "set xs = {n}" by (cases xs) auto
  with fold_max_Max [OF assms(1)] show ?thesis by simp
qed

lemma pad_row_full: "length row = n \<Longrightarrow> pad_row n row = row"
  by (simp add: pad_row_def)

lemma parse_aligned:
  assumes "0 < table_num_cols b"
  shows "map parse_row (map row_line (table_cells b)) = map (map strip) (table_cells b)"
proof -
  have "parse_row (row_line cells) = map strip cells" if "cells \<in> set (table_cells b)" for cells
  proof (rule parse_row_row_line)
    from that have "length cells = table_num_cols b" by (rule length_table_cells_row)
    with assms show "cells \<noteq> []" by auto
    from that show "\<forall>c\<in>set cells. 124 \<notin> set c" by (auto dest: table_cells_no_pipe)
  qed
  then show ?thesis by simp
qed

lemma num_cols_aligned:
  assumes "b \<noteq> []" and "0 < table_num_cols b"
  shows "table_num_cols (map row_line (table_cells b)) = table_num_cols b"
proof -
  have "table_num_cols (map row_line (table_cells b)) =
      fold max (map length (map (map strip) (table_cells b))) 0"
    by (simp only: table_num_cols_def parse_aligned [OF assms(2)])
  also have "\<dots> = table_num_cols b"
  proof (rule fold_max_const)
    show "map length (map (map strip) (table_cells b)) \<noteq> []"
      using assms(1) by (simp add: table_cells_def table_rows_def)
    show "\<forall>x\<in>set (map length (map (map strip) (table_cells b))). x = table_num_cols b"
      by (auto simp: length_table_cells_row)
  qed
  finally show ?thesis .
qed

lemma table_rows_aligned:
  assumes "b \<noteq> []" and "0 < table_num_cols b"
  shows "table_rows (map row_line (table_cells b)) =
     map (\<lambda>row. map strip (map2 render_cell (table_col_widths b) row)) (table_rows b)"
proof -
  have "table_rows (map row_line (table_cells b)) =
      map (pad_row (table_num_cols b)) (map (map strip) (table_cells b))"
    by (simp only: table_rows_def num_cols_aligned [OF assms] parse_aligned [OF assms(2)])
  also have "\<dots> = map (map strip) (table_cells b)"
    by (rule map_idI) (auto simp: length_table_cells_row intro!: pad_row_full)
  finally show ?thesis by (simp add: table_cells_def o_def)
qed

lemma table_rows_aligned_nth:
  assumes "row \<in> set (table_rows b)" and "c < table_num_cols b"
  shows "map strip (map2 render_cell (table_col_widths b) row) ! c =
     strip (render_cell (table_col_widths b ! c) (row ! c))"
  using assms by (simp add: length_table_row length_table_col_widths)

lemma table_rows_fixed:
  assumes "row \<in> set (table_rows b)" and "c < table_num_cols b"
  shows "strip (row ! c) = row ! c"
    and "all_dash_colon (row ! c) \<longrightarrow> 3 \<le> table_col_widths b ! c"
proof -
  from assms have "row ! c \<in> set row" by (simp add: length_table_row)
  with assms(1) show "strip (row ! c) = row ! c" by (rule table_rows_cell(2))
  show "all_dash_colon (row ! c) \<longrightarrow> 3 \<le> table_col_widths b ! c"
    using table_width_ge3 [OF assms] by simp
qed

lemma col_widths_aligned:
  assumes "b \<noteq> []" and "0 < table_num_cols b"
  shows "table_col_widths (map row_line (table_cells b)) = table_col_widths b"
proof (rule nth_equalityI)
  show "length (table_col_widths (map row_line (table_cells b))) = length (table_col_widths b)"
    by (simp add: length_table_col_widths num_cols_aligned [OF assms])
next
  fix c assume "c < length (table_col_widths (map row_line (table_cells b)))"
  then have c: "c < table_num_cols b"
    by (simp add: length_table_col_widths num_cols_aligned [OF assms])
  let ?b' = "map row_line (table_cells b)"
  let ?f = "\<lambda>row. if all_dash_colon (row ! c) then 3 else int (length (row ! c))"
  let ?g = "\<lambda>row. map strip (map2 render_cell (table_col_widths b) row)"
  have b': "?b' \<noteq> []" using assms(1) by (simp add: table_cells_def table_rows_def)
  have c': "c < table_num_cols ?b'" using c by (simp add: num_cols_aligned [OF assms])
  have "?f (?g row) = ?f row" if "row \<in> set (table_rows b)" for row
    unfolding table_rows_aligned_nth [OF that c]
    using table_rows_fixed [OF that c] by (rule contribution_render_cell)
  then have "?f ` set (table_rows ?b') = ?f ` set (table_rows b)"
    by (simp only: table_rows_aligned [OF assms] set_map image_image cong: image_cong)
  then show "table_col_widths ?b' ! c = table_col_widths b ! c"
    by (simp only: table_col_widths_Max [OF b' c'] table_col_widths_Max [OF assms(1) c])
qed

lemma table_cells_aligned:
  assumes "b \<noteq> []" and "0 < table_num_cols b"
  shows "table_cells (map row_line (table_cells b)) = table_cells b"
proof -
  let ?W = "table_col_widths b"
  have "map2 render_cell ?W (map strip (map2 render_cell ?W row)) = map2 render_cell ?W row"
    if row: "row \<in> set (table_rows b)" for row
  proof (rule nth_equalityI)
    show "length (map2 render_cell ?W (map strip (map2 render_cell ?W row))) =
        length (map2 render_cell ?W row)"
      by simp
  next
    fix c assume "c < length (map2 render_cell ?W (map strip (map2 render_cell ?W row)))"
    then have c: "c < table_num_cols b"
      using row by (simp add: length_table_row length_table_col_widths)
    have "render_cell (?W ! c) (strip (render_cell (?W ! c) (row ! c))) =
        render_cell (?W ! c) (row ! c)"
      using table_rows_fixed [OF row c] by (rule render_cell_again)
    then show "map2 render_cell ?W (map strip (map2 render_cell ?W row)) ! c =
        map2 render_cell ?W row ! c"
      using c row by (simp add: length_table_row length_table_col_widths)
  qed
  then show ?thesis
    by (simp add: table_cells_def [of "map row_line (table_cells b)"]
        col_widths_aligned [OF assms] table_rows_aligned [OF assms] o_def)
      (simp add: table_cells_def)
qed

lemma align_table_aligned:
  assumes "b \<noteq> []" and "0 < table_num_cols b" and "align_table b = Inr aligned"
  shows "align_table aligned = Inr aligned"
proof -
  from assms(1,3) have a: "aligned = map row_line (table_cells b)"
    by (simp add: align_table_eq)
  then have "aligned \<noteq> []"
    using assms(1) by (simp add: table_cells_def table_rows_def)
  then show ?thesis
    by (simp add: align_table_eq) (simp add: a table_cells_aligned [OF assms(1,2)])
qed


subsection \<open>Table blocks with at least one cell\<close>

lemma table_blocks_line: "\<not> is_table_row l \<Longrightarrow> table_blocks (l # ls) = table_blocks ls"
  by simp

lemma table_blocks_block:
  assumes "block \<noteq> []" and "\<forall>l\<in>set block. is_table_row l"
    and "rest = [] \<or> \<not> is_table_row (hd rest)"
  shows "table_blocks (block @ rest) = block # table_blocks rest"
proof -
  from assms(1) obtain l ls where block: "block = l # ls" by (cases block) auto
  then have l: "is_table_row l" using assms(2) by simp
  have c: "collect_table (l # ls @ rest) = (block, rest)"
    using collect_table_block [OF assms(2,3)] by (simp add: block)
  have "table_blocks (l # ls @ rest) = block # table_blocks rest"
    using l by (simp add: c del: collect_table.simps)
  then show ?thesis by (simp add: block)
qed

lemma split_snoc_sep: "split (m @ [sep]) sep = split m sep @ [[]]"
proof (induction m)
  case Nil
  then show ?case by simp
next
  case (Cons c m)
  obtain y ys where "split m sep = y # ys"
    using split_nonempty [of m sep] by (cases "split m sep") auto
  with Cons show ?case by simp
qed

lemma parse_row_nonempty:
  assumes "is_table_row l" and "strip l \<noteq> [124]"
  shows "parse_row l \<noteq> []"
proof -
  let ?s = "strip l"
  from assms(1) have s: "?s \<noteq> []" "hd ?s = 124" "last ?s = 124"
    by (simp_all add: is_table_row_hd_last)
  then obtain t where t: "?s = 124 # t" by (cases ?s) auto
  with assms(2) have "t \<noteq> []" by auto
  then obtain m where m: "t = m @ [last t]" by (metis append_butlast_last_id)
  from t s(3) \<open>t \<noteq> []\<close> have "last t = 124" by simp
  with t m have "?s = 124 # m @ [124]" by simp
  then have "split ?s 124 = [] # split m 124 @ [[]]"
    by (simp add: split_snoc_sep)
  then show ?thesis
    by (simp add: parse_row_def slice_1_m1_def split_nonempty)
qed

lemma num_cols_positive:
  assumes "l \<in> set b" and "is_table_row l" and "strip l \<noteq> [124]"
  shows "0 < table_num_cols b"
proof -
  have "length (parse_row l) \<in> set (map length (map parse_row b))"
    using assms(1) by auto
  then have "length (parse_row l) \<le> table_num_cols b"
    unfolding table_num_cols_def by (rule fold_max_mem)
  with parse_row_nonempty [OF assms(2,3)] show ?thesis
    by (cases "parse_row l") auto
qed

subsection \<open>The loop on its own output\<close>

lemma fix_lines_hd:
  assumes "fix_lines rest res = Inr (res @ d)"
  shows "rest = [] \<longrightarrow> d = []"
    and "rest \<noteq> [] \<longrightarrow> \<not> is_table_row (hd rest) \<longrightarrow> d \<noteq> [] \<and> hd d = hd rest"
proof -
  show "rest = [] \<longrightarrow> d = []" using assms by auto
  show "rest \<noteq> [] \<longrightarrow> \<not> is_table_row (hd rest) \<longrightarrow> d \<noteq> [] \<and> hd d = hd rest"
  proof (intro impI)
    assume "rest \<noteq> []" and nt: "\<not> is_table_row (hd rest)"
    then obtain l ls where rest: "rest = l # ls" by (cases rest) auto
    with nt obtain d' where "fix_lines (l # ls) res = Inr (res @ l # d')"
      using fix_lines_first [of l ls res] by auto
    with assms rest show "d \<noteq> [] \<and> hd d = hd rest" by auto
  qed
qed

lemma fix_lines_realign:
  assumes aligned: "aligned \<noteq> []" "\<forall>l\<in>set aligned. is_table_row l"
    and again: "map row_line (table_cells aligned) = aligned"
    and bf: "bf = [] \<or> bf = [[]]" "res @ bf = [] \<or> strip (last (res @ bf)) = []"
    and af: "af = [] \<or> af = [[]]" "af @ d' = [] \<or> strip (hd (af @ d')) = []"
  shows "fix_lines (bf @ aligned @ af @ d') res = fix_lines d' (res @ bf @ aligned @ af)"
proof -
  have nt: "af @ d' = [] \<or> \<not> is_table_row (hd (af @ d'))"
    using af(2) by (auto simp: not_table_row_blank)
  have b: "(if res @ bf \<noteq> [] \<and> strip (last (res @ bf)) \<noteq> [] then [[]] else []) = ([] :: pystr list)"
    by (rule if_not_P) (use bf(2) in blast)
  have a: "(if af @ d' \<noteq> [] \<and> strip (hd (af @ d')) \<noteq> [] then [[]] else []) = ([] :: pystr list)"
    by (rule if_not_P) (use af(2) in blast)
  have "fix_lines (bf @ aligned @ af @ d') res = fix_lines (aligned @ (af @ d')) (res @ bf)"
    using bf(1) by (auto simp: not_table_row_Nil)
  also have "\<dots> = fix_lines (af @ d') ((res @ bf) @ aligned)"
    by (simp only: fix_lines_block [OF aligned nt] again a b append_Nil append_Nil2)
  also have "\<dots> = fix_lines d' (((res @ bf) @ aligned) @ af)"
    using af(1) by (auto simp: not_table_row_Nil)
  finally show ?thesis by simp
qed


lemma fix_lines_idem:
  "\<forall>block\<in>set (table_blocks ls). \<exists>l\<in>set block. strip l \<noteq> [124] \<Longrightarrow>
   fix_lines ls res = Inr (res @ d) \<Longrightarrow> fix_lines d res = Inr (res @ d)"
proof (induction ls res arbitrary: d rule: lines_induct)
  case (Nil res)
  then show ?case by simp
next
  case (Line l ls res)
  obtain d' where d': "fix_lines ls (res @ [l]) = Inr ((res @ [l]) @ d')"
    using fix_lines_extends by blast
  with Line.prems(2) Line.hyps have d: "d = l # d'" by simp
  from Line.prems(1) Line.hyps
  have "\<forall>block\<in>set (table_blocks ls). \<exists>l\<in>set block. strip l \<noteq> [124]" by simp
  from Line.IH [OF this d'] show ?case
    using Line.hyps by (simp add: d)
next
  case (Block block rest res)
  define bf :: "pystr list" where "bf = (if res \<noteq> [] \<and> strip (last res) \<noteq> [] then [[]] else [])"
  define af :: "pystr list" where "af = (if rest \<noteq> [] \<and> strip (hd rest) \<noteq> [] then [[]] else [])"
  define aligned where "aligned = map row_line (table_cells block)"
  obtain d' where d': "fix_lines rest (res @ bf @ aligned @ af) = Inr ((res @ bf @ aligned @ af) @ d')"
    using fix_lines_extends by blast
  have first: "fix_lines (block @ rest) res = fix_lines rest (res @ bf @ aligned @ af)"
    unfolding bf_def af_def aligned_def by (rule fix_lines_block [OF Block.hyps(1-3)])
  with d' Block.prems(2) have d: "d = bf @ aligned @ af @ d'" by simp
  have blocks: "table_blocks (block @ rest) = block # table_blocks rest"
    by (rule table_blocks_block [OF Block.hyps(1-3)])
  with Block.prems(1)
  have rest_ok: "\<forall>block\<in>set (table_blocks rest). \<exists>l\<in>set block. strip l \<noteq> [124]"
    and "\<exists>l\<in>set block. strip l \<noteq> [124]" by simp_all
  then obtain l where "l \<in> set block" "strip l \<noteq> [124]" by blast
  with Block.hyps(2) have cols: "0 < table_num_cols block"
    by (intro num_cols_positive [of l]) auto
  have IH: "fix_lines d' (res @ bf @ aligned @ af) = Inr ((res @ bf @ aligned @ af) @ d')"
    using rest_ok d' by (rule Block.IH)
  have aligned: "aligned \<noteq> []" "\<forall>l\<in>set aligned. is_table_row l"
    using Block.hyps(1)
    by (simp_all add: aligned_def table_cells_def table_rows_def is_table_row_row_line)
  have again: "map row_line (table_cells aligned) = aligned"
    unfolding aligned_def by (simp only: table_cells_aligned [OF Block.hyps(1) cols])
  have bf: "bf = [] \<or> bf = [[]]" "res @ bf = [] \<or> strip (last (res @ bf)) = []"
    by (simp_all add: bf_def strip_Nil)
  have af1: "af = [] \<or> af = [[]]" by (simp add: af_def)
  have af2: "af @ d' = [] \<or> strip (hd (af @ d')) = []"
  proof (cases "af = []")
    case False
    with af1 show ?thesis by (simp add: strip_Nil)
  next
    case True
    then have r: "rest = [] \<or> strip (hd rest) = []" by (simp add: af_def split: if_splits)
    show ?thesis
    proof (cases "rest = []")
      case True
      with fix_lines_hd(1) [OF d'] \<open>af = []\<close> show ?thesis by simp
    next
      case False
      with r have "strip (hd rest) = []" by simp
      moreover from False Block.hyps(3) fix_lines_hd(2) [OF d'] have "hd d' = hd rest" "d' \<noteq> []"
        by simp_all
      ultimately show ?thesis using \<open>af = []\<close> by simp
    qed
  qed
  have "fix_lines (bf @ aligned @ af @ d') res = fix_lines d' (res @ bf @ aligned @ af)"
    using aligned again bf af1 af2 by (rule fix_lines_realign)
  with IH show ?case by (simp only: d append_assoc)
qed


subsection \<open>Joining the lines and splitting them again\<close>

lemma parse_row_chars:
  assumes "c \<in> set (parse_row l)"
  shows "set c \<subseteq> set l"
proof -
  from assms obtain x where x: "x \<in> set (butlast (tl (split (strip l) 124)))" and c: "c = strip x"
    by (auto simp: parse_row_def slice_1_m1_def)
  from x have "x \<in> set (tl (split (strip l) 124))" by (rule in_set_butlastD)
  then have "x \<in> set (split (strip l) 124)"
    by (rule list.set_sel(2) [rotated]) (simp add: split_nonempty)
  then have "set x \<subseteq> set (strip l)" by (rule split_set)
  with set_strip [of x] set_strip [of l] show ?thesis by (auto simp: c)
qed

lemma aligned_chars:
  assumes "line \<in> set (map row_line (table_cells b))" and "x \<in> set line"
  shows "x \<in> {32, 45, 58, 124} \<or> (\<exists>l\<in>set b. x \<in> set l)"
proof -
  from assms(1) obtain cells where cells: "cells \<in> set (table_cells b)" "line = row_line cells"
    by auto
  have "set (row_line cells) \<subseteq> {32, 124} \<union> \<Union> (set ` set cells)"
    using set_join [of "[32, 124, 32]" cells] by (auto simp: row_line_def str_lits)
  with assms(2) cells(2) have "x \<in> {32, 124} \<or> (\<exists>c\<in>set cells. x \<in> set c)" by auto
  then show ?thesis
  proof
    assume "x \<in> {32, 124}"
    then show ?thesis by auto
  next
    assume "\<exists>c\<in>set cells. x \<in> set c"
    then obtain c where c: "c \<in> set cells" "x \<in> set c" by blast
    from table_cells_cell [OF cells(1) c(1)] c(2)
    have "x \<in> {32, 45, 58} \<or> (\<exists>row\<in>set (table_rows b). \<exists>y\<in>set row. x \<in> set y)" by auto
    then show ?thesis
    proof
      assume "x \<in> {32, 45, 58}"
      then show ?thesis by auto
    next
      assume "\<exists>row\<in>set (table_rows b). \<exists>y\<in>set row. x \<in> set y"
      then obtain row y where "row \<in> set (table_rows b)" "y \<in> set row" and xy: "x \<in> set y"
        by blast
      then have "(\<exists>l\<in>set b. y \<in> set (parse_row l)) \<or> y = []"
        by (auto simp: table_rows_def pad_row_def)
      with xy obtain l where "l \<in> set b" "y \<in> set (parse_row l)" by auto
      with parse_row_chars [of y l] xy show ?thesis by auto
    qed
  qed
qed

lemma reflowed_nonempty: "reflowed ls d \<Longrightarrow> ls \<noteq> [] \<Longrightarrow> d \<noteq> []"
proof (induction rule: reflowed.induct)
  case Nil
  then show ?case by simp
next
  case (Line l ls out)
  then show ?case by simp
next
  case (Block block ls aligned before after out)
  from Block(1,4) have "aligned = map row_line (table_cells block)"
    by (simp add: align_table_eq)
  with Block(1) have "aligned \<noteq> []" by (simp add: table_cells_def table_rows_def)
  then show ?case by simp
qed

lemma reflowed_no_newline:
  "reflowed ls d \<Longrightarrow> \<forall>l\<in>set ls. 10 \<notin> set l \<Longrightarrow> \<forall>l\<in>set d. 10 \<notin> set l"
proof (induction rule: reflowed.induct)
  case Nil
  then show ?case by simp
next
  case (Line l ls out)
  then show ?case by simp
next
  case (Block block ls aligned before after out)
  from Block(1,4) have a: "aligned = map row_line (table_cells block)"
    by (simp add: align_table_eq)
  have "10 \<notin> set line" if "line \<in> set aligned" for line
  proof
    assume "10 \<in> set line"
    with that aligned_chars [of line block 10] have "\<exists>l\<in>set block. 10 \<in> set l"
      by (simp add: a)
    with Block.prems show False by auto
  qed
  moreover have "\<forall>l\<in>set before. 10 \<notin> set l" "\<forall>l\<in>set after. 10 \<notin> set l"
    using Block(5,6) by (auto simp: str_lits)
  moreover have "\<forall>l\<in>set out. 10 \<notin> set l"
    using Block.IH Block.prems by simp
  ultimately show ?case by auto
qed

lemma fix_tables_idem:
  assumes "\<forall>block\<in>set (table_blocks (split content 10)). \<exists>l\<in>set block. strip l \<noteq> [124]"
  shows "\<exists>out. fix_tables_in_content content = Inr out \<and> fix_tables_in_content out = Inr out"
proof -
  let ?ls = "split content 10"
  obtain d where d: "fix_lines ?ls [] = Inr ([] @ d)" and r: "reflowed ?ls d"
    using fix_lines_reflowed by blast
  have "fix_lines d [] = Inr ([] @ d)"
    using assms d by (rule fix_lines_idem)
  moreover have "split (join [10] d) 10 = d"
  proof (rule split_join)
    show "d \<noteq> []" using r by (rule reflowed_nonempty) (rule split_nonempty)
    show "\<forall>x\<in>set d. 10 \<notin> set x"
      using r by (rule reflowed_no_newline) (auto dest: split_no_sep)
  qed
  ultimately have "fix_tables_in_content (join [10] d) = Inr (join [10] d)"
    by (simp add: fix_tables_in_content_def str_lits)
  moreover have "fix_tables_in_content content = Inr (join [10] d)"
    using d by (simp add: fix_tables_in_content_def str_lits)
  ultimately show ?thesis by blast
qed

text \<open>
  C1. Running \<open>fix_tables_in_content\<close> on its own output changes nothing, for every input
  in which no table block consists only of lines that are, once trimmed, a lone pipe. On
  a lone pipe the transform is not idempotent: the row without cells is rendered as two
  pipes around two spaces, which the second run reads as a row of one empty cell.
\<close>

theorem fix_tables_idempotent:
  assumes "\<forall>block\<in>set (table_blocks (split content (cp CHR 0x0A))).
             \<exists>line\<in>set block. strip line \<noteq> str ''|''"
  shows "\<exists>out. fix_tables_in_content content = Inr out \<and> fix_tables_in_content out = Inr out"
  using assms by (intro fix_tables_idem) (simp add: str_lits)

theorem fix_tables_idempotent_witness:
  "table_blocks (split (doc [''intro'', ''|a|b|'', ''|-|:-:|'', ''end'', '' | '', ''||'']) (cp CHR 0x0A)) =
     [map str [''|a|b|'', ''|-|:-:|''], map str ['' | '', ''||'']] \<and>
   strip (str ''|a|b|'') \<noteq> str ''|'' \<and> strip (str ''||'') \<noteq> str ''|'' \<and>
   fix_tables_in_content (doc [''intro'', ''|a|b|'', ''|-|:-:|'', ''end'', '' | '', ''||'']) =
     Inr (doc [''intro'', '''', ''| a   | b   |'', ''| --- | :-: |'', '''', ''end'', '''',
               ''| --- |'', ''| --- |'']) \<and>
   fix_tables_in_content (doc [''intro'', '''', ''| a   | b   |'', ''| --- | :-: |'', '''', ''end'', '''',
               ''| --- |'', ''| --- |'']) =
     Inr (doc [''intro'', '''', ''| a   | b   |'', ''| --- | :-: |'', '''', ''end'', '''',
               ''| --- |'', ''| --- |''])"
  using fix_tables_idempotent
    [of "doc [''intro'', ''|a|b|'', ''|-|:-:|'', ''end'', '' | '', ''||'']"]
  by (simp add: eval_defs eval_doc)

text \<open>
  The lone pipe: its output \<^verbatim>\<open>|  |\<close> is not a fixed point, the second run gives
  \<^verbatim>\<open>| --- |\<close>.
\<close>

theorem fix_tables_not_idempotent_lone_pipe:
  "fix_tables_in_content (str ''|'') = Inr (str ''|  |'') \<and>
   fix_tables_in_content (str ''|  |'') = Inr (str ''| --- |'') \<and>
   str ''|  |'' \<noteq> str ''| --- |''"
  by (simp add: eval_defs)

subsection \<open>A block of lone pipes\<close>

lemma table_blocks_rows:
  "b \<in> set (table_blocks ls) \<Longrightarrow> b \<noteq> [] \<and> (\<forall>l\<in>set b. is_table_row l \<and> l \<in> set ls)"
proof (induction ls "[] :: pystr list" arbitrary: b rule: lines_induct)
  case Nil
  then show ?case by simp
next
  case (Line l ls)
  then show ?case by (simp add: table_blocks_line)
next
  case (Block block rest)
  from Block.prems have "b = block \<or> b \<in> set (table_blocks rest)"
    by (simp add: table_blocks_block [OF Block.hyps(1-3)])
  with Block.hyps(1,2) Block.hyps(4) [of b] show ?case by auto
qed

lemma reflowed_rows:
  "reflowed ls d \<Longrightarrow>
   set (filter is_table_row d) = (\<Union>b\<in>set (table_blocks ls). set (map row_line (table_cells b)))"
proof (induction rule: reflowed.induct)
  case Nil
  then show ?case by simp
next
  case (Line l ls out)
  then show ?case by (simp add: table_blocks_line)
next
  case (Block block ls aligned before after out)
  from Block(1,4) have a: "aligned = map row_line (table_cells block)"
    by (simp add: align_table_eq)
  then have "filter is_table_row aligned = aligned"
    by (simp add: is_table_row_row_line)
  moreover have "filter is_table_row before = []" "filter is_table_row after = []"
    using Block(5,6) by (auto simp: str_lits not_table_row_Nil)
  ultimately show ?case
    using Block.IH by (simp add: table_blocks_block [OF Block(1-3)] a)
qed

lemma parse_row_lone_pipe: "strip l = [124] \<Longrightarrow> parse_row l = []"
  by (simp add: parse_row_def slice_1_m1_def)

lemma table_cells_lone_pipes:
  assumes "\<forall>l\<in>set b. strip l = [124]"
  shows "map row_line (table_cells b) = replicate (length b) (row_line [])"
proof -
  have n: "table_num_cols b = 0"
  proof (cases "b = []")
    case True
    then show ?thesis by (simp add: table_num_cols_def)
  next
    case False
    show ?thesis
      unfolding table_num_cols_def
    proof (rule fold_max_const)
      show "map length (map parse_row b) \<noteq> []" using False by simp
      show "\<forall>x\<in>set (map length (map parse_row b)). x = 0"
        using assms by (auto simp: parse_row_lone_pipe)
    qed
  qed
  then have "table_col_widths b = []"
    by (simp add: table_col_widths_def col_widths_of_def)
  then have "table_cells b = replicate (length b) []"
    by (simp add: table_cells_def table_rows_def map_replicate_const)
  then show ?thesis by simp
qed

lemma rendered_cell_nonempty:
  assumes "cells \<in> set (table_cells b)" and "cell \<in> set cells"
  shows "cell \<noteq> []"
proof -
  from assms(1) obtain r where r: "r < length b" "cells = table_cells b ! r"
    by (auto simp: in_set_conv_nth length_table_cells)
  from assms(2) obtain c where c: "c < length cells" "cell = cells ! c"
    by (auto simp: in_set_conv_nth)
  with assms(1) have c': "c < table_num_cols b" by (simp add: length_table_cells_row)
  let ?row = "table_rows b ! r"
  have row: "?row \<in> set (table_rows b)" using r(1) by (simp add: length_table_rows)
  have "1 \<le> (if all_dash_colon (?row ! c) then 3 else int (length (?row ! c)))"
    by (cases "?row ! c") (simp_all add: all_dash_colon_def)
  also have "\<dots> \<le> table_col_widths b ! c" using row c' by (rule table_width_ge)
  finally have "1 \<le> int (length (table_cells b ! r ! c))"
    by (simp only: length_table_cell [OF r(1) c'])
  then show ?thesis using r(2) c(2) by auto
qed

lemma row_line_neq_empty_row:
  assumes "cells \<noteq> []" and "\<forall>cell\<in>set cells. cell \<noteq> []"
  shows "row_line cells \<noteq> row_line []"
proof -
  from assms obtain c cs where "cells = c # cs" "c \<noteq> []" by (cases cells) auto
  then have "join [32, 124, 32] cells \<noteq> []" by (cases cs) simp_all
  then show ?thesis by (simp add: row_line_def str_lits)
qed

lemma strip_row_line_not_lone_pipe: "strip (row_line cells) \<noteq> [124]"
  by (simp add: strip_row_line) (simp add: row_line_def str_lits)

lemma fix_lines_not_idem:
  assumes b: "b \<in> set (table_blocks ls)" and lone: "\<forall>l\<in>set b. strip l = [124]"
    and d: "fix_lines ls [] = Inr d" and e: "fix_lines d [] = Inr e"
  shows "e \<noteq> d"
proof -
  obtain d' where d': "fix_lines ls [] = Inr ([] @ d')" "reflowed ls d'"
    using fix_lines_reflowed by blast
  with d have rd: "reflowed ls d" by simp
  obtain e' where e': "fix_lines d [] = Inr ([] @ e')" "reflowed d e'"
    using fix_lines_reflowed by blast
  with e have re: "reflowed d e" by simp
  from table_blocks_rows [OF b] have "b \<noteq> []" by simp
  then have "row_line [] \<in> set (map row_line (table_cells b))"
    by (simp add: table_cells_lone_pipes [OF lone])
  with b have "row_line [] \<in> set (filter is_table_row d)"
    unfolding reflowed_rows [OF rd] by blast
  then have in_d: "row_line [] \<in> set d" by simp
  have "row_line [] \<notin> set e"
  proof
    assume "row_line [] \<in> set e"
    then have "row_line [] \<in> set (filter is_table_row e)"
      by (simp add: is_table_row_row_line)
    then obtain b' cells where b': "b' \<in> set (table_blocks d)"
      and cells: "cells \<in> set (table_cells b')" "row_line [] = row_line cells"
      unfolding reflowed_rows [OF re] by auto
    from table_blocks_rows [OF b'] obtain l where l: "l \<in> set b'" "is_table_row l" "l \<in> set d"
      by (cases b') auto
    then have "l \<in> set (filter is_table_row d)" by simp
    then obtain cs where "l = row_line cs"
      unfolding reflowed_rows [OF rd] by auto
    then have "strip l \<noteq> [124]" by (simp add: strip_row_line_not_lone_pipe)
    with l have "0 < table_num_cols b'" by (intro num_cols_positive [of l])
    with cells(1) have "cells \<noteq> []" by (auto dest: length_table_cells_row)
    moreover have "\<forall>cell\<in>set cells. cell \<noteq> []"
      using cells(1) by (auto dest: rendered_cell_nonempty)
    ultimately have "row_line cells \<noteq> row_line []" by (rule row_line_neq_empty_row)
    with cells(2) show False by simp
  qed
  with in_d show ?thesis by auto
qed

text \<open>
  The condition is exact: on an input with a table block of lone pipes only, the output
  of the transform is changed by the transform.
\<close>

lemma fix_tables_not_idem:
  assumes "b \<in> set (table_blocks (split content 10))" and "\<forall>l\<in>set b. strip l = [124]"
    and "fix_tables_in_content content = Inr out"
  shows "fix_tables_in_content out \<noteq> Inr out"
proof
  assume again: "fix_tables_in_content out = Inr out"
  let ?ls = "split content 10"
  obtain d where d: "fix_lines ?ls [] = Inr ([] @ d)" and rd: "reflowed ?ls d"
    using fix_lines_reflowed by blast
  with assms(3) have out: "out = join [10] d"
    by (simp add: fix_tables_in_content_def str_lits)
  have d_ne: "d \<noteq> []" using rd by (rule reflowed_nonempty) (rule split_nonempty)
  have d_nl: "\<forall>x\<in>set d. 10 \<notin> set x"
    using rd by (rule reflowed_no_newline) (auto dest: split_no_sep)
  have sd: "split (join [10] d) 10 = d"
    using d_ne d_nl by (rule split_join)
  obtain e where e: "fix_lines d [] = Inr ([] @ e)" and re: "reflowed d e"
    using fix_lines_reflowed by blast
  have e_ne: "e \<noteq> []" using re d_ne by (rule reflowed_nonempty)
  have e_nl: "\<forall>x\<in>set e. 10 \<notin> set x"
    using re d_nl by (rule reflowed_no_newline)
  from again e have "join [10] e = join [10] d"
    by (simp add: fix_tables_in_content_def out sd str_lits)
  then have "split (join [10] e) 10 = split (join [10] d) 10" by simp
  then have "e = d" by (simp only: sd split_join [OF e_ne e_nl])
  moreover have "e \<noteq> d"
    using assms(1,2) _ _ by (rule fix_lines_not_idem) (use d e in simp_all)
  ultimately show False by simp
qed

end
